theory Spec2Isabelle
  imports Complex_Main "HOL-Library.Sublist" "HOL-Library.Multiset"
begin

section \<open>Python strings\<close>

text \<open>
  A line of the G-code file is a Python \<open>str\<close>. It is modelled as a \<open>string\<close>, that is a
  list of characters with code points below 256; the character classes below are the ones
  Python 3 uses for \<open>str.strip\<close>, \<open>str.lower\<close> and the \<open>re\<close> classes \<open>\s\<close>, \<open>\d\<close> and
  \<open>\w\<close> on that range.
\<close>

definition code :: "char \<Rightarrow> nat" where
  "code c = of_char c"

definition is_space :: "char \<Rightarrow> bool" where
  "is_space c = (let n = code c in
     (9 \<le> n \<and> n \<le> 13) \<or> (28 \<le> n \<and> n \<le> 32) \<or> n = 133 \<or> n = 160)"

definition is_digit :: "char \<Rightarrow> bool" where
  "is_digit c = (let n = code c in 48 \<le> n \<and> n \<le> 57)"

definition is_word :: "char \<Rightarrow> bool" where
  "is_word c = (let n = code c in
     (48 \<le> n \<and> n \<le> 57) \<or> (65 \<le> n \<and> n \<le> 90) \<or> n = 95 \<or> (97 \<le> n \<and> n \<le> 122) \<or>
     n = 170 \<or> n = 178 \<or> n = 179 \<or> n = 181 \<or> n = 185 \<or> n = 186 \<or>
     (188 \<le> n \<and> n \<le> 190) \<or> (192 \<le> n \<and> n \<le> 214) \<or> (216 \<le> n \<and> n \<le> 246) \<or>
     248 \<le> n)"

definition lower_char :: "char \<Rightarrow> char" where
  "lower_char c = (let n = code c in
     if (65 \<le> n \<and> n \<le> 90) \<or> (192 \<le> n \<and> n \<le> 214) \<or> (216 \<le> n \<and> n \<le> 222)
     then char_of (n + 32) else c)"

definition lower :: "string \<Rightarrow> string" where
  "lower s = map lower_char s"

definition strip :: "string \<Rightarrow> string" where
  "strip s = rev (dropWhile is_space (rev (dropWhile is_space s)))"

definition startswith :: "string \<Rightarrow> string \<Rightarrow> bool" where
  "startswith s pre = (take (length pre) s = pre)"

text \<open>\<open>str_in pat s\<close> is Python's \<open>pat in s\<close>: \<open>pat\<close> occurs in \<open>s\<close> as a substring.\<close>

fun str_in :: "string \<Rightarrow> string \<Rightarrow> bool" where
  "str_in pat [] = (pat = [])"
| "str_in pat (c # cs) = (take (length pat) (c # cs) = pat \<or> str_in pat cs)"

definition digit_val :: "char \<Rightarrow> nat" where
  "digit_val c = code c - 48"

text \<open>\<open>int(s)\<close> on a string of decimal digits (the only strings the program passes).\<close>

definition py_int :: "string \<Rightarrow> nat" where
  "py_int s = foldl (\<lambda>n c. 10 * n + digit_val c) 0 s"

text \<open>
  \<open>float(s)\<close> on a string of the form sign, digits, optional dot and digits (the only
  strings the program passes). Python's binary floating point numbers are modelled by the
  exact decimal value, a rational number.
\<close>

definition py_float :: "string \<Rightarrow> rat" where
  "py_float s =
     (let neg = (s \<noteq> [] \<and> hd s = CHR ''-'');
          r = (if s \<noteq> [] \<and> (hd s = CHR ''-'' \<or> hd s = CHR ''+'') then tl s else s);
          ip = takeWhile is_digit r;
          r' = dropWhile is_digit r;
          fp = (if r' \<noteq> [] \<and> hd r' = CHR ''.'' then takeWhile is_digit (tl r') else []);
          v = of_nat (py_int ip) + of_nat (py_int fp) / 10 ^ length fp
      in if neg then - v else v)"

text \<open>\<open>str(n)\<close> as used by the f-strings: the decimal numeral of a tool number.\<close>

definition digit_char :: "nat \<Rightarrow> char" where
  "digit_char d = ''0123456789'' ! d"

fun str_of_nat :: "nat \<Rightarrow> string" where
  "str_of_nat n =
     (if n < 10 then [digit_char n]
      else str_of_nat (n div 10) @ [digit_char (n mod 10)])"

declare str_of_nat.simps [simp del]

section \<open>The regular expressions\<close>

text \<open>
  The number pattern \<open>[-+]?\d*\.?\d+\<close>, matched at the start of \<open>s\<close>; the result is the
  text of the group. The digits are taken greedily; a dot is taken when a digit follows it.
\<close>

definition num_unsigned :: "string \<Rightarrow> string option" where
  "num_unsigned s =
     (let d1 = takeWhile is_digit s; r = dropWhile is_digit s;
          d2 = (if r \<noteq> [] \<and> hd r = CHR ''.'' then takeWhile is_digit (tl r) else [])
      in if d2 \<noteq> [] then Some (d1 @ CHR ''.'' # d2)
         else if d1 \<noteq> [] then Some d1 else None)"

definition num_group :: "string \<Rightarrow> string option" where
  "num_group s =
     (if s \<noteq> [] \<and> (hd s = CHR ''-'' \<or> hd s = CHR ''+'')
      then (case num_unsigned (tl s) of
              Some g \<Rightarrow> Some (hd s # g)
            | None \<Rightarrow> num_unsigned s)
      else num_unsigned s)"

text \<open>
  \<open>re_e.search\<close> for \<open>(?<!;)\bE([-+]?\d*\.?\d+)\<close>: the leftmost \<open>E\<close> that is not directly
  preceded by a semicolon or by a word character and is followed by a number. \<open>prev\<close> is the
  character before the current position.
\<close>

fun re_e_from :: "char option \<Rightarrow> string \<Rightarrow> string option" where
  "re_e_from prev [] = None"
| "re_e_from prev (c # cs) =
     (if c = CHR ''E'' \<and> prev \<noteq> Some (CHR '';'') \<and>
         (case prev of None \<Rightarrow> True | Some q \<Rightarrow> \<not> is_word q)
      then (case num_group cs of
              Some g \<Rightarrow> Some g
            | None \<Rightarrow> re_e_from (Some c) cs)
      else re_e_from (Some c) cs)"

definition re_e_search :: "string \<Rightarrow> string option" where
  "re_e_search s = re_e_from None s"

text \<open>
  \<open>re_t.match\<close> for \<open>^\s*T(\d+)\s*(?:;.*)?$\<close>. The dot does not match a newline and
  \<open>$\<close> matches at the end or before a final newline.
\<close>

definition re_t_match :: "string \<Rightarrow> string option" where
  "re_t_match s =
     (case dropWhile is_space s of
        [] \<Rightarrow> None
      | c # r \<Rightarrow>
          if c \<noteq> CHR ''T'' then None
          else let ds = takeWhile is_digit r;
                   r1 = dropWhile is_space (dropWhile is_digit r)
               in if ds = [] then None
                  else if r1 = [] then Some ds
                  else if hd r1 = CHR '';'' \<and>
                          (let e = dropWhile (\<lambda>x. x \<noteq> CHR 0x0A) (tl r1)
                           in e = [] \<or> e = [CHR 0x0A])
                       then Some ds else None)"

text \<open>
  \<open>re_g92_e.match\<close> for \<open>^\s*G92\s+.*E([-+]?\d*\.?\d+)\<close> with \<open>re.IGNORECASE\<close>. The
  greedy \<open>.*\<close> stays on one line, so the group is the number after the last \<open>E\<close> or \<open>e\<close>
  that has one, up to the first newline after the leading white space.
\<close>

fun g92_last_e :: "string \<Rightarrow> string option \<Rightarrow> string option" where
  "g92_last_e [] acc = acc"
| "g92_last_e (c # cs) acc =
     (if c = CHR 0x0A then acc
      else if c = CHR ''E'' \<or> c = CHR ''e''
           then (case num_group cs of
                   Some g \<Rightarrow> g92_last_e cs (Some g)
                 | None \<Rightarrow> g92_last_e cs acc)
           else g92_last_e cs acc)"

definition re_g92_e_match :: "string \<Rightarrow> string option" where
  "re_g92_e_match s =
     (case dropWhile is_space s of
        g # n # t # w # r \<Rightarrow>
          if (g = CHR ''G'' \<or> g = CHR ''g'') \<and> n = CHR ''9'' \<and> t = CHR ''2'' \<and> is_space w
          then g92_last_e (dropWhile is_space r) None
          else None
      | _ \<Rightarrow> None)"

section \<open>The processor and the usage analysis\<close>

datatype extrusion_mode = ABS | REL

text \<open>
  The fields of \<open>ToolShutdownProcessor\<close> that the analysis and the insertion use. The two
  \<open>defaultdict\<close>s are total functions with the default value (\<open>[]\<close> and \<open>0\<close>) at every
  key that was never written.
\<close>

record config =
  shutdown_heater :: bool
  shutdown_fan :: bool
  add_comments :: bool
  create_backup :: bool
  generate_report :: bool

record processor =
  lines :: "string list"
  tool_usage :: "nat \<Rightarrow> nat list"
  tool_changes :: "nat \<Rightarrow> nat"
  current_tool :: nat
  total_tools :: "nat set"
  shutdown_inserted :: "nat set"
  e_mode :: extrusion_mode
  e_pos :: rat
  config :: config

text \<open>The processor after \<open>__init__\<close> and \<open>load_gcode\<close> have run on a file with the lines \<open>ls\<close>.\<close>

definition default_config :: config where
  "default_config = \<lparr> shutdown_heater = True, shutdown_fan = False, add_comments = True,
     create_backup = True, generate_report = True \<rparr>"

definition init :: "string list \<Rightarrow> processor" where
  "init ls = \<lparr> lines = ls, tool_usage = (\<lambda>_. []), tool_changes = (\<lambda>_. 0),
     current_tool = 0, total_tools = {}, shutdown_inserted = {}, e_mode = ABS, e_pos = 0,
     config = default_config \<rparr>"

text \<open>The local variables of \<open>analyze_tool_usage\<close>.\<close>

record locals =
  previous_tool :: "nat option"
  in_start_gcode :: bool
  first_tool_after_start :: bool

definition init_locals :: locals where
  "init_locals = \<lparr> previous_tool = None, in_start_gcode = True, first_tool_after_start = True \<rparr>"

definition tolerance :: rat where
  "tolerance = 1 / 1000000"

text \<open>The branch of the loop body for a standalone \<open>T\<close> command (source lines 120 to 133).\<close>

definition select_tool :: "nat \<Rightarrow> locals \<times> processor \<Rightarrow> locals \<times> processor" where
  "select_tool new_tool st =
     (let (v, p) = st;
          (v1, p1) =
            (if \<not> in_start_gcode v then
               (if first_tool_after_start v then (v\<lparr>first_tool_after_start := False\<rparr>, p)
                else if previous_tool v \<noteq> None \<and> previous_tool v \<noteq> Some new_tool
                     then (v, p\<lparr>tool_changes :=
                                  (tool_changes p)(new_tool := tool_changes p new_tool + 1)\<rparr>)
                     else (v, p))
             else (v, p))
      in (v1\<lparr>previous_tool := Some new_tool\<rparr>,
          p1\<lparr>current_tool := new_tool, total_tools := insert new_tool (total_tools p1)\<rparr>))"

text \<open>The branch for a move that carries an \<open>E\<close> value (source lines 141 to 156).\<close>

definition is_extrusion :: "processor \<Rightarrow> rat \<Rightarrow> bool" where
  "is_extrusion p e_value =
     (if e_mode p = ABS then e_value > e_pos p + tolerance else e_value > tolerance)"

definition track_extrusion :: "nat \<Rightarrow> rat \<Rightarrow> processor \<Rightarrow> processor" where
  "track_extrusion line_num e_value p =
     (let p1 = (if e_mode p = ABS then p\<lparr>e_pos := e_value\<rparr> else p)
      in if is_extrusion p e_value
         then p1\<lparr>tool_usage :=
                   (tool_usage p1)(current_tool p1 := tool_usage p1 (current_tool p1) @ [line_num]),
                 total_tools := insert (current_tool p1) (total_tools p1)\<rparr>
         else p1)"

definition is_move :: "string \<Rightarrow> bool" where
  "is_move line = (line \<noteq> [] \<and> hd line = CHR ''G'' \<and> (take 2 line = ''G0'' \<or> take 2 line = ''G1''))"

text \<open>The body of the loop of \<open>analyze_tool_usage\<close> for the line \<open>raw_line\<close> at index \<open>line_num\<close>.\<close>

definition analyze_line :: "nat \<Rightarrow> string \<Rightarrow> locals \<times> processor \<Rightarrow> locals \<times> processor" where
  "analyze_line line_num raw_line st =
     (let (v0, p) = st;
          line = strip raw_line;
          v = (if str_in '';LAYER:'' line \<or> str_in '';layer'' (lower line)
               then v0\<lparr>in_start_gcode := False\<rparr> else v0)
      in if startswith line ''M82'' then (v, p\<lparr>e_mode := ABS\<rparr>)
         else if startswith line ''M83'' then (v, p\<lparr>e_mode := REL\<rparr>)
         else (case re_g92_e_match line of
                 Some g \<Rightarrow> (v, p\<lparr>e_pos := py_float g\<rparr>)
               | None \<Rightarrow>
                  (case re_t_match line of
                     Some d \<Rightarrow> select_tool (py_int d) (v, p)
                   | None \<Rightarrow>
                      if is_move line
                      then (case re_e_search line of
                              None \<Rightarrow> (v, p)
                            | Some g \<Rightarrow> (v, track_extrusion line_num (py_float g) p))
                      else (v, p))))"

text \<open>The loop \<open>for line_num, raw_line in enumerate(self.lines)\<close>, from index \<open>i\<close> on.\<close>

fun analyze_from :: "nat \<Rightarrow> string list \<Rightarrow> locals \<times> processor \<Rightarrow> locals \<times> processor" where
  "analyze_from i [] st = st"
| "analyze_from i (l # ls) st = analyze_from (Suc i) ls (analyze_line i l st)"

definition analyze_tool_usage :: "processor \<Rightarrow> processor" where
  "analyze_tool_usage p = snd (analyze_from 0 (lines p) (init_locals, p))"

section \<open>The insertion planner and the sequence mutator\<close>

definition standby_text :: "nat \<Rightarrow> string" where
  "standby_text tool_num = ''M104 S100 T'' @ str_of_nat tool_num"

text \<open>The test \<open>f'M104 S100 T{tool_num}' in line\<close> on the stripped line.\<close>

definition standby_marker :: "nat \<Rightarrow> string \<Rightarrow> bool" where
  "standby_marker tool_num raw_line = str_in (standby_text tool_num) (strip raw_line)"

text \<open>
  The loop \<open>for idx in range(len(self.lines) - 1, -1, -1)\<close> of \<open>find_last_standby_command\<close>
  with \<open>Suc idx\<close> indices still to visit: the next index is \<open>idx\<close>.
\<close>

fun standby_scan :: "string list \<Rightarrow> nat \<Rightarrow> nat \<Rightarrow> nat option" where
  "standby_scan ls tool_num 0 = None"
| "standby_scan ls tool_num (Suc idx) =
     (if standby_marker tool_num (ls ! idx) then Some (idx + 1)
      else standby_scan ls tool_num idx)"

definition find_last_standby_command :: "processor \<Rightarrow> nat \<Rightarrow> nat option" where
  "find_last_standby_command p tool_num = standby_scan (lines p) tool_num (length (lines p))"

text \<open>\<open>if insert_after_standby:\<close> is false for \<open>None\<close> and for \<open>0\<close>.\<close>

definition find_safe_insertion_point :: "processor \<Rightarrow> nat \<Rightarrow> nat \<Rightarrow> nat option" where
  "find_safe_insertion_point p last_usage_line tool =
     (case find_last_standby_command p tool of
        Some k \<Rightarrow> if k \<noteq> 0 then Some k else None
      | None \<Rightarrow> None)"

text \<open>
  The lines of a shutdown block. The arrow (U+2192) between the two temperatures of the
  third banner line has no code point below 256 and is written \<open>->\<close>.
\<close>

definition generate_shutdown_commands :: "processor \<Rightarrow> nat \<Rightarrow> string list" where
  "generate_shutdown_commands p tool_num =
     (let t = str_of_nat tool_num; nl = [CHR 0x0A]; c = config p
      in (if add_comments c
          then [''; ========================================'' @ nl,
                ''; AUTO-SHUTDOWN: Tool T'' @ t @ nl,
                ''; Overrides OrcaSlicer standby (100'' @ [CHR 0xB0] @ ''C -> 0'' @ [CHR 0xB0] @ ''C)'' @ nl,
                ''; ========================================'' @ nl]
          else []) @
         (if shutdown_heater c
          then [''M104 S0 T'' @ t @ ''          ; Hotend T'' @ t @ '' shutdown'' @ nl]
          else []) @
         (if shutdown_fan c
          then [''M106 P'' @ t @ '' S0          ; Part cooling fan T'' @ t @ '' off'' @ nl]
          else []) @
         (if add_comments c
          then [''; Energy savings: Tool T'' @ t @ '' fully deactivated'' @ nl, nl]
          else []))"

text \<open>\<open>xs.insert(i, x)\<close> for an index \<open>i \<ge> 0\<close>: beyond the end it appends.\<close>

definition list_insert :: "nat \<Rightarrow> 'a \<Rightarrow> 'a list \<Rightarrow> 'a list" where
  "list_insert i x xs = take i xs @ x # drop i xs"

text \<open>The loop \<open>for cmd in reversed(shutdown_cmds): output_lines.insert(insert_at, cmd)\<close>.\<close>

definition insert_block :: "nat \<Rightarrow> string list \<Rightarrow> string list \<Rightarrow> string list" where
  "insert_block insert_at cmds out = foldl (\<lambda>acc cmd. list_insert insert_at cmd acc) out (rev cmds)"

text \<open>\<open>max\<close> of a list; the program applies it to non-empty usage lists only.\<close>

definition list_max :: "nat list \<Rightarrow> nat" where
  "list_max xs = foldl max (hd xs) (tl xs)"

text \<open>
  The dictionary \<open>last_usage\<close> as the list of its items. \<open>ts\<close> is the order in which Python
  iterates over the set \<open>self.total_tools\<close>; the language does not fix it, so it is a parameter.
\<close>

definition last_usage_items :: "processor \<Rightarrow> nat list \<Rightarrow> (nat \<times> nat) list" where
  "last_usage_items p ts =
     map (\<lambda>tool. (tool, list_max (tool_usage p tool))) (filter (\<lambda>tool. tool_usage p tool \<noteq> []) ts)"

text \<open>
  \<open>sorted(xs, key=key, reverse=True)\<close>: a stable sort in descending order, which Python
  computes as the reverse of the stable ascending sort of the reversed list.
\<close>

definition sorted_reverse :: "('a \<Rightarrow> nat) \<Rightarrow> 'a list \<Rightarrow> 'a list" where
  "sorted_reverse key xs = rev (sort_key key (rev xs))"

definition tools_by_last_use :: "processor \<Rightarrow> nat list \<Rightarrow> (nat \<times> nat) list" where
  "tools_by_last_use p ts = sorted_reverse snd (last_usage_items p ts)"

text \<open>
  The body of the loop over \<open>tools_by_last_use\<close>; the state is \<open>output_lines\<close> and
  \<open>self.shutdown_inserted\<close>.
\<close>

definition shutdown_step ::
  "processor \<Rightarrow> string list \<times> nat set \<Rightarrow> nat \<times> nat \<Rightarrow> string list \<times> nat set" where
  "shutdown_step p st item =
     (let (output_lines, inserted) = st; (tool, last_line) = item
      in case find_safe_insertion_point p last_line tool of
           None \<Rightarrow> (output_lines, inserted)
         | Some insert_at \<Rightarrow>
             (insert_block insert_at (generate_shutdown_commands p tool) output_lines,
              insert tool inserted))"

definition insert_shutdown_commands :: "processor \<Rightarrow> nat list \<Rightarrow> string list \<times> processor" where
  "insert_shutdown_commands p ts =
     (let (output_lines, inserted) =
            foldl (shutdown_step p) (lines p, shutdown_inserted p) (tools_by_last_use p ts)
      in (output_lines, p\<lparr>shutdown_inserted := inserted\<rparr>))"

section \<open>The report\<close>

text \<open>
  The report is modelled by what its tool section says, not by its text: one entry for each
  tool of \<open>sorted(self.total_tools)\<close> with a non-empty usage list, giving the tool, its
  change count and its status (\<open>Auto_Shutdown\<close> for the line "Auto-Shutdown",
  \<open>Active_until_end\<close> for the line "Active until end").
\<close>

datatype tool_status = Auto_Shutdown | Active_until_end

definition report_tools :: "processor \<Rightarrow> (nat \<times> nat \<times> tool_status) list" where
  "report_tools p =
     map (\<lambda>tool. (tool, tool_changes p tool,
                  if tool \<in> shutdown_inserted p then Auto_Shutdown else Active_until_end))
         (filter (\<lambda>tool. tool_usage p tool \<noteq> []) (sorted_list_of_set (total_tools p)))"

section \<open>The pipeline\<close>

text \<open>
  \<open>process\<close> without the file system and without the report lines: the analysis of a
  freshly loaded file followed by the insertion of the shutdown blocks. The result is the
  output lines and the processor; \<open>ts\<close> lists the known tools in the order of iteration.
  When the analysis finds no tool, \<open>process\<close> returns before the insertion and writes
  nothing; here the list of tools is then empty and the output lines are the input lines.
\<close>

definition run :: "nat list \<Rightarrow> string list \<Rightarrow> string list \<times> processor" where
  "run ts ls = insert_shutdown_commands (analyze_tool_usage (init ls)) ts"

section \<open>Invariants of the analysis\<close>

text \<open>
  After the lines below index \<open>i\<close> have been analysed, starting from a fresh processor: every
  recorded index is below \<open>i\<close>, no index is recorded for two tools, every tool with a recorded
  index is a known tool, and the known tools are finitely many.
\<close>

definition usage_inv :: "nat \<Rightarrow> processor \<Rightarrow> bool" where
  "usage_inv i p \<longleftrightarrow>
     (\<forall>t. \<forall>j\<in>set (tool_usage p t). j < i) \<and>
     (\<forall>t u. t \<noteq> u \<longrightarrow> set (tool_usage p t) \<inter> set (tool_usage p u) = {}) \<and>
     (\<forall>t. tool_usage p t \<noteq> [] \<longrightarrow> t \<in> total_tools p) \<and>
     finite (total_tools p)"

section \<open>Lines the analysis passes over\<close>

text \<open>
  A line that takes none of the branches of the loop body and carries no layer marker: the
  loop body leaves the processor and the local variables as they are.
\<close>

definition ignored_line :: "string \<Rightarrow> bool" where
  "ignored_line raw_line =
     (let line = strip raw_line
      in \<not> str_in '';LAYER:'' line \<and> \<not> str_in '';layer'' (lower line) \<and>
         \<not> startswith line ''M82'' \<and> \<not> startswith line ''M83'' \<and>
         re_g92_e_match line = None \<and> re_t_match line = None \<and> \<not> is_move line)"

text \<open>
  Two states of the loop agree on everything the loop body reads, and on which tools have a
  usage list that is not empty; the recorded indices themselves may differ.
\<close>

definition similar :: "locals \<times> processor \<Rightarrow> locals \<times> processor \<Rightarrow> bool" where
  "similar st st' \<longleftrightarrow>
     fst st = fst st' \<and>
     tool_changes (snd st) = tool_changes (snd st') \<and>
     current_tool (snd st) = current_tool (snd st') \<and>
     total_tools (snd st) = total_tools (snd st') \<and>
     e_mode (snd st) = e_mode (snd st') \<and>
     e_pos (snd st) = e_pos (snd st') \<and>
     (\<forall>t. (tool_usage (snd st) t = []) = (tool_usage (snd st') t = []))"

text \<open>Every semicolon is followed by a space.\<close>

abbreviation (input) semi_ok :: "char \<Rightarrow> char \<Rightarrow> bool" where
  "semi_ok x y \<equiv> (x = CHR '';'' \<longrightarrow> y = CHR '' '')"

section \<open>Evaluation and basic facts\<close>

lemma char_of_eval:
  "char_of (n::nat) = Char (odd n) (odd (n div 2)) (odd (n div 4)) (odd (n div 8))
     (odd (n div 16)) (odd (n div 32)) (odd (n div 64)) (odd (n div 128))"
  by (simp add: char_of_def bit_iff_odd)

lemmas char_defs = code_def is_space_def is_digit_def is_word_def lower_char_def lower_def
  digit_val_def digit_char_def char_of_eval

lemmas regex_defs = num_unsigned_def num_group_def re_e_search_def re_t_match_def
  re_g92_e_match_def

lemmas analysis_defs = strip_def startswith_def py_int_def py_float_def is_move_def
  tolerance_def is_extrusion_def track_extrusion_def select_tool_def analyze_line_def
  analyze_tool_usage_def init_def init_locals_def default_config_def

lemma take_eq_iff_append: "take (length pat) s = pat \<longleftrightarrow> (\<exists>b. s = pat @ b)"
  by (metis append_eq_conv_conj append_take_drop_id)

lemma str_in_iff: "str_in pat s \<longleftrightarrow> (\<exists>a b. s = a @ pat @ b)"
proof (induction s)
  case Nil
  then show ?case by auto
next
  case (Cons c cs)
  show ?case
  proof
    assume "str_in pat (c # cs)"
    then consider "take (length pat) (c # cs) = pat" | "str_in pat cs" by auto
    then show "\<exists>a b. c # cs = a @ pat @ b"
    proof cases
      case 1
      then obtain b where "c # cs = pat @ b" using take_eq_iff_append by blast
      then have "c # cs = [] @ pat @ b" by simp
      then show ?thesis by blast
    next
      case 2
      then obtain a b where "cs = a @ pat @ b" using Cons.IH by blast
      then have "c # cs = (c # a) @ pat @ b" by simp
      then show ?thesis by blast
    qed
  next
    assume "\<exists>a b. c # cs = a @ pat @ b"
    then obtain a b where ab: "c # cs = a @ pat @ b" by blast
    show "str_in pat (c # cs)"
    proof (cases a)
      case Nil
      then have "take (length pat) (c # cs) = pat" using ab take_eq_iff_append by auto
      then show ?thesis by simp
    next
      case (Cons x a')
      then have "cs = a' @ pat @ b" using ab by simp
      then show ?thesis using Cons.IH by auto
    qed
  qed
qed

lemma strip_decomp:
  "\<exists>w1 w2. raw = w1 @ strip raw @ w2 \<and> (\<forall>c\<in>set w1. is_space c) \<and> (\<forall>c\<in>set w2. is_space c)"
proof -
  let ?t = "dropWhile is_space raw"
  have 1: "raw = takeWhile is_space raw @ ?t" by simp
  have "rev (dropWhile is_space (rev ?t)) @ rev (takeWhile is_space (rev ?t)) =
          rev (takeWhile is_space (rev ?t) @ dropWhile is_space (rev ?t))"
    by (simp only: rev_append)
  also have "\<dots> = rev (rev ?t)"
    by (simp only: takeWhile_dropWhile_id)
  finally have 2: "?t = strip raw @ rev (takeWhile is_space (rev ?t))"
    by (simp add: strip_def)
  have 3: "\<forall>c\<in>set (takeWhile is_space raw). is_space c"
    by (meson set_takeWhileD)
  have 4: "\<forall>c\<in>set (rev (takeWhile is_space (rev ?t))). is_space c"
    by (metis set_rev set_takeWhileD)
  have "raw = takeWhile is_space raw @ strip raw @ rev (takeWhile is_space (rev ?t))"
    using 1 2 by metis
  then show ?thesis using 3 4 by blast
qed

lemma dropWhile_keeps_pattern:
  assumes "pat \<noteq> []" "\<not> P (hd pat)"
  shows "\<exists>a'. dropWhile P (a @ pat @ b) = a' @ pat @ b"
proof (induction a)
  case Nil
  have "dropWhile P (pat @ b) = pat @ b"
    using assms by (cases pat) auto
  then show ?case by (metis append_Nil)
next
  case (Cons x a)
  then show ?case
    by (cases "P x") (auto intro: exI[of _ "x # a"])
qed

lemma str_in_strip:
  assumes "pat \<noteq> []" "\<not> is_space (hd pat)" "\<not> is_space (last pat)" "str_in pat s"
  shows "str_in pat (strip s)"
proof -
  obtain a b where "s = a @ pat @ b" using assms(4) str_in_iff by blast
  then obtain a' where 1: "dropWhile is_space s = a' @ pat @ b"
    using dropWhile_keeps_pattern[of pat is_space a b] assms(1,2) by blast
  have "rev (dropWhile is_space s) = rev b @ rev pat @ rev a'"
    using 1 by simp
  moreover have "rev pat \<noteq> []" "\<not> is_space (hd (rev pat))"
    using assms by (auto simp: hd_rev)
  ultimately obtain b' where "dropWhile is_space (rev (dropWhile is_space s)) = b' @ rev pat @ rev a'"
    using dropWhile_keeps_pattern by metis
  then have "strip s = a' @ pat @ rev b'"
    by (simp add: strip_def)
  then show ?thesis using str_in_iff by blast
qed

lemma digit_char_is_digit: "d < 10 \<Longrightarrow> is_digit (digit_char d)"
proof -
  assume "d < 10"
  then have "d = 0 \<or> d = 1 \<or> d = 2 \<or> d = 3 \<or> d = 4 \<or> d = 5 \<or> d = 6 \<or> d = 7 \<or> d = 8 \<or> d = 9"
    by arith
  then show ?thesis
    by (elim disjE) (simp_all add: char_defs)
qed

lemma str_of_nat_digits: "str_of_nat n \<noteq> [] \<and> (\<forall>c\<in>set (str_of_nat n). is_digit c)"
proof (induction n rule: str_of_nat.induct)
  case (1 n)
  show ?case
  proof (cases "n < 10")
    case True
    then show ?thesis
      by (subst (1 2) str_of_nat.simps) (simp add: digit_char_is_digit)
  next
    case False
    then show ?thesis
      using 1 by (subst (1 2) str_of_nat.simps) (simp add: digit_char_is_digit)
  qed
qed

lemma digit_not_space: "is_digit c \<Longrightarrow> \<not> is_space c"
  by (auto simp: is_digit_def is_space_def Let_def)

lemma standby_text_ends:
  "standby_text n \<noteq> [] \<and> \<not> is_space (hd (standby_text n)) \<and> \<not> is_space (last (standby_text n))"
proof -
  have "is_digit (last (str_of_nat n))"
    using str_of_nat_digits[of n] last_in_set by blast
  then have "\<not> is_space (last (standby_text n))"
    using str_of_nat_digits[of n] by (simp add: standby_text_def digit_not_space)
  moreover have "\<not> is_space (hd (standby_text n))"
    by (simp add: standby_text_def is_space_def code_def)
  ultimately show ?thesis
    by (simp add: standby_text_def)
qed

lemma standby_marker_iff: "standby_marker n raw \<longleftrightarrow> str_in (standby_text n) raw"
proof
  assume "standby_marker n raw"
  then obtain a b where "strip raw = a @ standby_text n @ b"
    by (auto simp: standby_marker_def str_in_iff)
  moreover obtain w1 w2 where "raw = w1 @ strip raw @ w2" using strip_decomp by blast
  ultimately have "raw = (w1 @ a) @ standby_text n @ (b @ w2)" by simp
  then show "str_in (standby_text n) raw" using str_in_iff by blast
next
  assume "str_in (standby_text n) raw"
  then show "standby_marker n raw"
    using standby_text_ends[of n] by (simp add: standby_marker_def str_in_strip)
qed

section \<open>The extrusion rule\<close>








text \<open>Scenario B as a whole, from a freshly loaded file.\<close>

lemma scenario_B:
  "let p = analyze_tool_usage (init [''G1 E5.0'', ''G1 E5.0'', ''G1 E3.0''])
   in tool_usage p 0 = [0] \<and> e_pos p = 3"
  by (simp add: analysis_defs regex_defs char_defs Let_def)

section \<open>The backward search for the standby command\<close>

lemma standby_scan_None:
  "standby_scan ls t n = None \<longleftrightarrow> (\<forall>k<n. \<not> standby_marker t (ls ! k))"
  by (induction n) (auto simp: less_Suc_eq)

lemma standby_scan_Some:
  "standby_scan ls t n = Some j \<longleftrightarrow>
     (\<exists>m. j = m + 1 \<and> m < n \<and> standby_marker t (ls ! m) \<and>
          (\<forall>i. m < i \<and> i < n \<longrightarrow> \<not> standby_marker t (ls ! i)))"
proof (induction n)
  case 0
  then show ?case by simp
next
  case (Suc n)
  show ?case
  proof (cases "standby_marker t (ls ! n)")
    case True
    then show ?thesis
      by (auto simp: less_Suc_eq)
  next
    case False
    then show ?thesis
      using Suc by (auto simp: less_Suc_eq)
  qed
qed

text \<open>
  If some line of the file passes the test of source line 178 for a tool (the standby text
  of the tool occurs in the line), the target index for that tool is one more than the
  largest index of such a line: the search from the end stops at the last line that passes
  the test, never at an earlier one.
\<close>

lemma last_standby_selected:
  assumes "k < length (lines p)" and "standby_marker t (lines p ! k)"
  shows "\<exists>m. find_safe_insertion_point p last_line t = Some (m + 1) \<and>
             k \<le> m \<and> m < length (lines p) \<and> standby_marker t (lines p ! m) \<and>
             (\<forall>j. m < j \<and> j < length (lines p) \<longrightarrow> \<not> standby_marker t (lines p ! j))"
proof -
  have "standby_scan (lines p) t (length (lines p)) \<noteq> None"
    using assms by (auto simp: standby_scan_None)
  then obtain j where j: "standby_scan (lines p) t (length (lines p)) = Some j"
    by blast
  then obtain m where m: "j = m + 1" "m < length (lines p)" "standby_marker t (lines p ! m)"
    "\<forall>i. m < i \<and> i < length (lines p) \<longrightarrow> \<not> standby_marker t (lines p ! i)"
    by (auto simp: standby_scan_Some)
  have "k \<le> m"
    using m(4) assms by (meson not_le_imp_less)
  then show ?thesis
    using j m by (auto simp: find_safe_insertion_point_def find_last_standby_command_def)
qed

lemmas planner_defs = standby_marker_def standby_text_def find_last_standby_command_def
  find_safe_insertion_point_def str_of_nat.simps

text \<open>
  A file with the marker of tool 0 at the indices 0 and 2: the hypotheses hold at index 0 and
  the target index is 3.
\<close>

lemma last_standby_selected_example:
  "let p = init [''M104 S100 T0'', ''G1 X1'', ''M104 S100 T0'', ''G1 X2'']
   in 0 < length (lines p) \<and> standby_marker 0 (lines p ! 0) \<and>
      find_safe_insertion_point p 7 0 = Some 3 \<and>
      (\<exists>m. find_safe_insertion_point p 7 0 = Some (m + 1) \<and>
           0 \<le> m \<and> m < length (lines p) \<and> standby_marker 0 (lines p ! m) \<and>
           (\<forall>j. m < j \<and> j < length (lines p) \<longrightarrow> \<not> standby_marker 0 (lines p ! j)))"
proof -
  define p where "p = init [''M104 S100 T0'', ''G1 X1'', ''M104 S100 T0'', ''G1 X2'']"
  have 1: "0 < length (lines p)"
    by (simp add: p_def init_def)
  have 2: "standby_marker 0 (lines p ! 0)"
    by (simp add: p_def init_def planner_defs strip_def char_defs)
  have 3: "find_safe_insertion_point p 7 0 = Some 3"
    by (simp add: p_def init_def planner_defs strip_def char_defs eval_nat_numeral)
  show ?thesis
    using 1 2 3 last_standby_selected[OF 1 2, of 7]
    unfolding p_def[symmetric] Let_def by blast
qed

text \<open>
  C2. The test of the search is whether the text \<open>M104 S100 T1\<close> occurs in the line, and
  the standby command of tool 12 contains that text. In the file below the last standby
  command of tool 1 is at index 2 and the one of tool 12 at index 5. The target index for
  tool 1 is 6, not 3: the search from the end stops at the standby command of tool 12. The
  planner handles tool 12 first (last use 4) and then tool 1 (last use 1), both at index 6;
  in the output the line after the standby command of tool 1 is still \<open>T12\<close>, the block of
  tool 1 stands after the standby command of tool 12 at the indices 6 to 12, and the block
  of tool 12 follows it at the indices 13 to 19.
\<close>

theorem other_tool_standby_selected:
  "find_safe_insertion_point
     (analyze_tool_usage (init [''T1'', ''G1 E1.0'', ''M104 S100 T1'', ''T12'', ''G1 E2.0'',
                                ''M104 S100 T12'', ''G1 X9''])) 1 1 = Some 6 \<and>
   tools_by_last_use
     (analyze_tool_usage (init [''T1'', ''G1 E1.0'', ''M104 S100 T1'', ''T12'', ''G1 E2.0'',
                                ''M104 S100 T12'', ''G1 X9''])) [1, 12] = [(12, 4), (1, 1)] \<and>
   take 7 (fst (run [1, 12] [''T1'', ''G1 E1.0'', ''M104 S100 T1'', ''T12'', ''G1 E2.0'',
                             ''M104 S100 T12'', ''G1 X9''])) =
     [''T1'', ''G1 E1.0'', ''M104 S100 T1'', ''T12'', ''G1 E2.0'', ''M104 S100 T12'',
      ''; ========================================'' @ [CHR 0x0A]] \<and>
   take 7 (drop 6 (fst (run [1, 12] [''T1'', ''G1 E1.0'', ''M104 S100 T1'', ''T12'', ''G1 E2.0'',
                                     ''M104 S100 T12'', ''G1 X9'']))) =
     generate_shutdown_commands (init []) 1 \<and>
   take 7 (drop 13 (fst (run [1, 12] [''T1'', ''G1 E1.0'', ''M104 S100 T1'', ''T12'', ''G1 E2.0'',
                                      ''M104 S100 T12'', ''G1 X9'']))) =
     generate_shutdown_commands (init []) 12"
  by code_simp

text \<open>
  C10. The search accepts the standby text of tool \<open>n\<close> anywhere in a line. A line that has
  the text \<open>M104 S100 T\<close> followed by the number of a tool \<open>m\<close>, after any text \<open>pre\<close> (a
  comment marker, another command) and before any text \<open>post\<close>, anchors the insertion for
  every tool \<open>n\<close> whose decimal numeral is a prefix of the numeral of \<open>m\<close>, when no later line
  matches: the target index is the index after that line.
\<close>

theorem standby_search_substring:
  assumes "k < length (lines p)"
    and "lines p ! k = pre @ ''M104 S100 T'' @ str_of_nat m @ post"
    and "prefix (str_of_nat n) (str_of_nat m)"
    and "\<forall>j. k < j \<and> j < length (lines p) \<longrightarrow> \<not> standby_marker n (lines p ! j)"
  shows "standby_marker n (lines p ! k) \<and>
         find_safe_insertion_point p last_line n = Some (k + 1)"
proof -
  obtain z where "str_of_nat m = str_of_nat n @ z"
    using assms(3) by (auto simp: prefix_def)
  then have "lines p ! k = pre @ standby_text n @ (z @ post)"
    using assms(2) by (simp add: standby_text_def)
  then have marker: "standby_marker n (lines p ! k)"
    unfolding standby_marker_iff str_in_iff by blast
  then have "standby_scan (lines p) n (length (lines p)) = Some (k + 1)"
    using assms(1,4) unfolding standby_scan_Some by auto
  then show ?thesis
    using marker by (simp add: find_safe_insertion_point_def find_last_standby_command_def)
qed

text \<open>
  The search for tool 1 is anchored to line 1, a move whose comment mentions the standby
  command of tool 12, and not to the standby command of tool 1 at line 0.
\<close>

theorem standby_search_substring_witness:
  "let p = init [''M104 S100 T1'', ''G1 X1 ; M104 S100 T12 comes next'', ''G1 X2'']
   in 1 < length (lines p) \<and>
      lines p ! 1 = ''G1 X1 ; '' @ ''M104 S100 T'' @ str_of_nat 12 @ '' comes next'' \<and>
      prefix (str_of_nat 1) (str_of_nat 12) \<and>
      (\<forall>j. 1 < j \<and> j < length (lines p) \<longrightarrow> \<not> standby_marker 1 (lines p ! j)) \<and>
      standby_marker 1 (lines p ! 1) \<and> find_safe_insertion_point p 0 1 = Some 2"
proof -
  define p where "p = init [''M104 S100 T1'', ''G1 X1 ; M104 S100 T12 comes next'', ''G1 X2'']"
  have 1: "1 < length (lines p)"
    by (simp add: p_def init_def)
  have 2: "lines p ! 1 = ''G1 X1 ; '' @ ''M104 S100 T'' @ str_of_nat 12 @ '' comes next''"
    by (simp add: p_def init_def str_of_nat.simps digit_char_def)
  have 3: "prefix (str_of_nat 1) (str_of_nat 12)"
    by (simp add: str_of_nat.simps digit_char_def)
  have "\<not> standby_marker 1 (lines p ! 2)"
    by (simp add: p_def init_def planner_defs strip_def char_defs)
  moreover have "j = 2" if "1 < j" "j < length (lines p)" for j
    using that by (simp add: p_def init_def)
  ultimately have 4: "\<forall>j. 1 < j \<and> j < length (lines p) \<longrightarrow> \<not> standby_marker 1 (lines p ! j)"
    by blast
  show ?thesis
    using 1 2 3 4 standby_search_substring[OF 1 2 3 4, of 0]
    unfolding p_def[symmetric] Let_def by simp
qed

section \<open>Tool selection\<close>

lemma re_t_match_shape:
  assumes "re_t_match s = Some ds"
  shows "\<exists>w r. s = w @ CHR ''T'' # ds @ r \<and> (\<forall>c\<in>set w. is_space c) \<and>
           ds \<noteq> [] \<and> (\<forall>c\<in>set ds. is_digit c) \<and>
           (dropWhile is_space r = [] \<or> hd (dropWhile is_space r) = CHR '';'')"
proof -
  let ?w = "takeWhile is_space s"
  obtain c r0 where cr: "dropWhile is_space s = c # r0"
    using assms by (auto simp: re_t_match_def split: list.splits)
  then have c: "c = CHR ''T''"
    using assms by (auto simp: re_t_match_def split: if_splits)
  let ?r = "dropWhile is_digit r0"
  have ds: "ds = takeWhile is_digit r0" "ds \<noteq> []"
    and tail: "dropWhile is_space ?r = [] \<or> hd (dropWhile is_space ?r) = CHR '';''"
    using assms cr c by (auto simp: re_t_match_def Let_def split: if_splits)
  have "s = ?w @ dropWhile is_space s" by simp
  also have "\<dots> = ?w @ CHR ''T'' # r0" using cr c by simp
  also have "r0 = ds @ ?r" using ds by simp
  finally have "s = ?w @ CHR ''T'' # ds @ ?r" .
  moreover have "\<forall>c\<in>set ?w. is_space c" by (meson set_takeWhileD)
  moreover have "\<forall>c\<in>set ds. is_digit c" using ds by (meson set_takeWhileD)
  ultimately show ?thesis using ds(2) tail by blast
qed

lemma not_T_no_match:
  assumes "line \<noteq> []" "\<not> is_space (hd line)" "hd line \<noteq> CHR ''T''"
  shows "re_t_match line = None"
  using assms by (cases line) (auto simp: re_t_match_def)

lemma strip_suffix:
  "\<exists>w2. dropWhile is_space raw = strip raw @ w2 \<and> (\<forall>c\<in>set w2. is_space c)"
proof -
  let ?t = "dropWhile is_space raw"
  have "rev (dropWhile is_space (rev ?t)) @ rev (takeWhile is_space (rev ?t)) =
          rev (takeWhile is_space (rev ?t) @ dropWhile is_space (rev ?t))"
    by (simp only: rev_append)
  also have "\<dots> = rev (rev ?t)"
    by (simp only: takeWhile_dropWhile_id)
  finally have "?t = strip raw @ rev (takeWhile is_space (rev ?t))"
    by (simp add: strip_def)
  moreover have "\<forall>c\<in>set (rev (takeWhile is_space (rev ?t))). is_space c"
    by (metis set_rev set_takeWhileD)
  ultimately show ?thesis by blast
qed

lemma strip_hd_not_space: "strip raw \<noteq> [] \<Longrightarrow> \<not> is_space (hd (strip raw))"
proof -
  assume ne: "strip raw \<noteq> []"
  obtain w2 where w2: "dropWhile is_space raw = strip raw @ w2"
    using strip_suffix by blast
  then have "dropWhile is_space raw \<noteq> []" using ne by simp
  then have "\<not> is_space (hd (dropWhile is_space raw))" by (rule hd_dropWhile)
  then show ?thesis using w2 ne by simp
qed

lemma no_match_keeps_tool:
  assumes "re_t_match (strip raw) = None"
  shows "tool_changes (snd (analyze_line i raw (v, p))) = tool_changes p \<and>
         current_tool (snd (analyze_line i raw (v, p))) = current_tool p \<and>
         previous_tool (fst (analyze_line i raw (v, p))) = previous_tool v"
  using assms
  by (auto simp: analyze_line_def Let_def track_extrusion_def split: option.splits)

text \<open>A temperature command leaves the whole processor as it is.\<close>

lemma temperature_line_inert:
  assumes "startswith (strip raw) ''M10''"
  shows "re_t_match (strip raw) = None \<and> snd (analyze_line i raw (v, p)) = p"
proof -
  obtain r where r: "strip raw = CHR ''M'' # CHR ''1'' # CHR ''0'' # r"
    using assms by (auto simp: startswith_def) (metis append_take_drop_id append_Cons append_Nil)
  then show ?thesis
    by (auto simp: analyze_line_def Let_def startswith_def re_t_match_def re_g92_e_match_def
        is_move_def char_defs split: list.splits)
qed

text \<open>
  C5. A line is taken as a tool selection only when it consists of white space, the letter
  \<open>T\<close>, a non-empty run of digits, white space and then nothing or a comment that starts with
  a semicolon. A line whose first character after the leading white space is not \<open>T\<close> (any
  other command, whatever parameters it carries) is not a tool selection, and a line that is
  not a tool selection changes neither the change counts nor the current or the previous
  tool.
\<close>

theorem tool_select_whole_line:
  "(re_t_match (strip raw) = Some ds \<longrightarrow>
      (\<exists>w1 w2 cmt. raw = w1 @ CHR ''T'' # ds @ w2 @ cmt \<and> (\<forall>c\<in>set w1. is_space c) \<and>
         ds \<noteq> [] \<and> (\<forall>c\<in>set ds. is_digit c) \<and> (\<forall>c\<in>set w2. is_space c) \<and>
         (cmt = [] \<or> hd cmt = CHR '';''))) \<and>
   ((\<nexists>r. strip raw = CHR ''T'' # r) \<longrightarrow> re_t_match (strip raw) = None) \<and>
   (re_t_match (strip raw) = None \<longrightarrow>
      tool_changes (snd (analyze_line i raw (v, p))) = tool_changes p \<and>
      current_tool (snd (analyze_line i raw (v, p))) = current_tool p \<and>
      previous_tool (fst (analyze_line i raw (v, p))) = previous_tool v)"
proof (intro conjI impI)
  assume m: "re_t_match (strip raw) = Some ds"
  obtain w r where s: "strip raw = w @ CHR ''T'' # ds @ r" and w: "\<forall>c\<in>set w. is_space c"
    and ds: "ds \<noteq> []" "\<forall>c\<in>set ds. is_digit c"
    and tail: "dropWhile is_space r = [] \<or> hd (dropWhile is_space r) = CHR '';''"
    using re_t_match_shape[OF m] by blast
  obtain a b where raw: "raw = a @ strip raw @ b" and a: "\<forall>c\<in>set a. is_space c"
    and b: "\<forall>c\<in>set b. is_space c"
    using strip_decomp by blast
  have r: "r = takeWhile is_space r @ dropWhile is_space r" by simp
  show "\<exists>w1 w2 cmt. raw = w1 @ CHR ''T'' # ds @ w2 @ cmt \<and> (\<forall>c\<in>set w1. is_space c) \<and>
         ds \<noteq> [] \<and> (\<forall>c\<in>set ds. is_digit c) \<and> (\<forall>c\<in>set w2. is_space c) \<and>
         (cmt = [] \<or> hd cmt = CHR '';'')"
  proof (cases "dropWhile is_space r = []")
    case True
    then have "\<forall>c\<in>set r. is_space c"
      by (metis r append_Nil2 set_takeWhileD)
    then have "\<forall>c\<in>set (r @ b). is_space c" using b by auto
    moreover have "raw = (a @ w) @ CHR ''T'' # ds @ (r @ b) @ []"
      using raw s by simp
    moreover have "\<forall>c\<in>set (a @ w). is_space c" using a w by auto
    ultimately show ?thesis using ds by blast
  next
    case False
    then have "hd (dropWhile is_space r @ b) = hd (dropWhile is_space r)"
      by (rule hd_append2)
    then have "hd (dropWhile is_space r @ b) = CHR '';''"
      using tail False by metis
    moreover have "raw = (a @ w) @ CHR ''T'' # ds @ takeWhile is_space r @ (dropWhile is_space r @ b)"
      using raw s r by (metis append.assoc append_Cons)
    moreover have "\<forall>c\<in>set (a @ w). is_space c" using a w by auto
    moreover have "\<forall>c\<in>set (takeWhile is_space r). is_space c" by (meson set_takeWhileD)
    ultimately show ?thesis using ds by blast
  qed
next
  assume n: "\<nexists>r. strip raw = CHR ''T'' # r"
  show "re_t_match (strip raw) = None"
  proof (cases "strip raw")
    case Nil
    then show ?thesis by (simp add: re_t_match_def)
  next
    case (Cons c r)
    then have "\<not> is_space (hd (strip raw))" "hd (strip raw) \<noteq> CHR ''T''"
      using strip_hd_not_space[of raw] n by auto
    then show ?thesis using Cons by (intro not_T_no_match) auto
  qed
qed (use no_match_keeps_tool in blast)+

text \<open>
  The line \<open>T1\<close> with a comment is a tool selection of the stated shape; the temperature
  command \<open>M104 S100 T1\<close> is not one and counts no tool change.
\<close>

theorem tool_select_whole_line_witness:
  "re_t_match (strip '' T1 ; next tool'') = Some ''1'' \<and>
   (\<exists>w1 w2 cmt. '' T1 ; next tool'' = w1 @ CHR ''T'' # ''1'' @ w2 @ cmt \<and>
      (\<forall>c\<in>set w1. is_space c) \<and> (\<forall>c\<in>set w2. is_space c) \<and> (cmt = [] \<or> hd cmt = CHR '';'')) \<and>
   (\<nexists>r. strip ''M104 S100 T1'' = CHR ''T'' # r) \<and>
   re_t_match (strip ''M104 S100 T1'') = None \<and>
   tool_changes (snd (analyze_line 4 ''M104 S100 T1'' (init_locals, init []))) = tool_changes (init []) \<and>
   current_tool (snd (analyze_line 4 ''M104 S100 T1'' (init_locals, init []))) = 0"
proof -
  have 1: "re_t_match (strip '' T1 ; next tool'') = Some ''1''"
    by (simp add: strip_def re_t_match_def char_defs)
  have 2: "\<nexists>r. strip ''M104 S100 T1'' = CHR ''T'' # r"
    by (simp add: strip_def char_defs)
  have 3: "current_tool (init []) = 0"
    by (simp add: init_def)
  show ?thesis
    using 1 2 3 tool_select_whole_line[of " '' T1 ; next tool''" "''1''"]
      tool_select_whole_line[of "''M104 S100 T1''" ds 4 init_locals "init []"]
    by auto
qed

section \<open>Moves with an extrusion value\<close>

text \<open>
  C6. The look-behind of \<open>re_e\<close> rejects an \<open>E\<close> only when the semicolon stands directly
  before it. In \<open>G1 X10 Y10 ; E5.0\<close> a space separates the two, so the \<open>E5.0\<close> of the comment
  is taken as the extrusion value, the line is recorded as an extrusion of tool 0 and the
  position becomes 5. The test of the command is a test of the first two characters, so the
  line \<open>G10 E1.0\<close> is taken as a move as well.
\<close>

theorem comment_E_counted:
  "re_e_search (strip ''G1 X10 Y10 ; E5.0'') = Some ''5.0'' \<and>
   tool_usage (analyze_tool_usage (init [''G1 X10 Y10 ; E5.0''])) 0 = [0] \<and>
   e_pos (analyze_tool_usage (init [''G1 X10 Y10 ; E5.0''])) = 5 \<and>
   tool_usage (analyze_tool_usage (init [''G10 E1.0''])) 0 = [0]"
  by (simp add: analysis_defs regex_defs char_defs)

section \<open>What a pass of the analysis keeps\<close>

lemma analyze_line_effect:
  "\<exists>v' p'. analyze_line i l (v, p) = (v', p') \<and>
     lines p' = lines p \<and> shutdown_inserted p' = shutdown_inserted p \<and> config p' = config p \<and>
     (tool_usage p' = tool_usage p \<or>
      (\<exists>t. tool_usage p' = (tool_usage p)(t := tool_usage p t @ [i]) \<and> t \<in> total_tools p')) \<and>
     total_tools p \<subseteq> total_tools p' \<and> (finite (total_tools p) \<longrightarrow> finite (total_tools p')) \<and>
     (\<forall>t. tool_changes p t \<le> tool_changes p' t)"
  by (auto simp: analyze_line_def select_tool_def track_extrusion_def Let_def
      split: option.splits)

lemma analyze_from_frame:
  "lines (snd (analyze_from i ls st)) = lines (snd st) \<and>
   shutdown_inserted (snd (analyze_from i ls st)) = shutdown_inserted (snd st) \<and>
   config (snd (analyze_from i ls st)) = config (snd st)"
proof (induction ls arbitrary: i st)
  case Nil
  then show ?case by simp
next
  case (Cons l ls)
  obtain v p where st: "st = (v, p)" by (cases st)
  obtain v' p' where "analyze_line i l (v, p) = (v', p')" "lines p' = lines p"
    "shutdown_inserted p' = shutdown_inserted p" "config p' = config p"
    using analyze_line_effect[of i l v p] by blast
  then show ?case
    using Cons.IH[of "Suc i" "(v', p')"] st by simp
qed

lemma analyze_line_inv:
  assumes "usage_inv i p"
  shows "usage_inv (Suc i) (snd (analyze_line i l (v, p)))"
proof -
  obtain v' p' where step: "analyze_line i l (v, p) = (v', p')"
    and u: "tool_usage p' = tool_usage p \<or>
      (\<exists>t. tool_usage p' = (tool_usage p)(t := tool_usage p t @ [i]) \<and> t \<in> total_tools p')"
    and tt: "total_tools p \<subseteq> total_tools p'" "finite (total_tools p) \<longrightarrow> finite (total_tools p')"
    using analyze_line_effect[of i l v p] by blast
  from u have "usage_inv (Suc i) p'"
  proof
    assume "tool_usage p' = tool_usage p"
    then show ?thesis
      using assms tt unfolding usage_inv_def by (auto simp: less_Suc_eq)
  next
    assume "\<exists>t. tool_usage p' = (tool_usage p)(t := tool_usage p t @ [i]) \<and> t \<in> total_tools p'"
    then obtain t where t: "tool_usage p' = (tool_usage p)(t := tool_usage p t @ [i])"
      "t \<in> total_tools p'" by blast
    have fresh: "i \<notin> set (tool_usage p u)" for u
      using assms unfolding usage_inv_def by auto
    show ?thesis
      unfolding usage_inv_def
    proof (intro conjI allI impI ballI)
      fix u j assume "j \<in> set (tool_usage p' u)"
      then show "j < Suc i"
        using assms t(1) unfolding usage_inv_def by (auto simp: less_Suc_eq split: if_splits)
    next
      fix a b :: nat assume "a \<noteq> b"
      then show "set (tool_usage p' a) \<inter> set (tool_usage p' b) = {}"
        using assms t(1) fresh unfolding usage_inv_def by (auto split: if_splits)
    next
      fix u assume "tool_usage p' u \<noteq> []"
      then show "u \<in> total_tools p'"
        using assms t tt unfolding usage_inv_def by (auto split: if_splits)
    next
      show "finite (total_tools p')"
        using assms tt unfolding usage_inv_def by blast
    qed
  qed
  then show ?thesis using step by simp
qed

lemma analyze_from_inv:
  "usage_inv i (snd st) \<Longrightarrow> usage_inv (i + length ls) (snd (analyze_from i ls st))"
proof (induction ls arbitrary: i st)
  case Nil
  then show ?case by simp
next
  case (Cons l ls)
  obtain v p where st: "st = (v, p)" by (cases st)
  have "usage_inv (Suc i) (snd (analyze_line i l st))"
    using Cons.prems analyze_line_inv st by simp
  from Cons.IH[OF this] show ?case by simp
qed

lemma usage_inv_init: "usage_inv 0 (init ls)"
  by (simp add: usage_inv_def init_def)

lemma analyzed_inv: "usage_inv (length ls) (analyze_tool_usage (init ls))"
  using analyze_from_inv[of 0 "(init_locals, init ls)" ls] usage_inv_init
  by (simp add: analyze_tool_usage_def init_def)

lemma analyzed_frame:
  "lines (analyze_tool_usage (init ls)) = ls \<and>
   shutdown_inserted (analyze_tool_usage (init ls)) = {} \<and>
   config (analyze_tool_usage (init ls)) = default_config"
  using analyze_from_frame[of 0 ls "(init_locals, init ls)"]
  by (simp add: analyze_tool_usage_def init_def)

section \<open>The order of the planner\<close>

lemma list_max_Max: "xs \<noteq> [] \<Longrightarrow> list_max xs = Max (set xs)"
proof -
  assume "xs \<noteq> []"
  then obtain x r where xs: "xs = x # r" by (cases xs) auto
  have "foldl max x r = fold max r x"
    by (simp add: foldl_conv_fold max.commute)
  moreover have "Max (set (x # r)) = fold max r x"
    by (rule Max.set_eq_fold)
  ultimately show ?thesis
    using xs by (simp only: list_max_def list.sel)
qed

lemma list_max_in: "xs \<noteq> [] \<Longrightarrow> list_max xs \<in> set xs"
  using Max_in[of "set xs"] by (simp add: list_max_Max)

lemma last_use_inj:
  assumes "usage_inv i p"
  shows "inj_on (\<lambda>t. list_max (tool_usage p t)) {t. tool_usage p t \<noteq> []}"
proof (rule inj_onI)
  fix t u
  assume t: "t \<in> {t. tool_usage p t \<noteq> []}" and u: "u \<in> {t. tool_usage p t \<noteq> []}"
    and eq: "list_max (tool_usage p t) = list_max (tool_usage p u)"
  have "list_max (tool_usage p t) \<in> set (tool_usage p t)"
    "list_max (tool_usage p u) \<in> set (tool_usage p u)"
    using t u by (simp_all add: list_max_in)
  then have "set (tool_usage p t) \<inter> set (tool_usage p u) \<noteq> {}"
    using eq by auto
  then show "t = u"
    using assms unfolding usage_inv_def by blast
qed

lemma last_usage_items_keys:
  assumes "usage_inv i p" "distinct ts"
  shows "distinct (map snd (last_usage_items p ts))"
proof -
  have "map snd (last_usage_items p ts) =
        map (\<lambda>t. list_max (tool_usage p t)) (filter (\<lambda>t. tool_usage p t \<noteq> []) ts)"
    by (simp add: last_usage_items_def comp_def)
  moreover have "distinct (filter (\<lambda>t. tool_usage p t \<noteq> []) ts)"
    using assms(2) by simp
  moreover have "inj_on (\<lambda>t. list_max (tool_usage p t)) (set (filter (\<lambda>t. tool_usage p t \<noteq> []) ts))"
    using last_use_inj[OF assms(1)] by (rule inj_on_subset) auto
  ultimately show ?thesis
    by (simp add: distinct_map)
qed

lemma sorted_reverse_mset: "mset (sorted_reverse key xs) = mset xs"
  by (simp add: sorted_reverse_def)

lemma sorted_reverse_desc: "sorted (rev (map key (sorted_reverse key xs)))"
  by (simp add: sorted_reverse_def rev_map[symmetric])

lemma sorted_reverse_strict:
  assumes "distinct (map key xs)"
  shows "sorted_wrt (\<lambda>a b. key b < key a) (sorted_reverse key xs)"
proof -
  let ?r = "sorted_reverse key xs"
  have "mset (map key ?r) = mset (map key xs)"
    by (simp add: sorted_reverse_mset)
  then have "distinct (map key ?r)"
    using assms by (metis mset_eq_imp_distinct_iff)
  then have "distinct (rev (map key ?r))" by simp
  then have "sorted_wrt (<) (rev (map key ?r))"
    using sorted_reverse_desc[of key xs] by (simp add: strict_sorted_iff)
  then have "sorted_wrt (\<lambda>x y. y < x) (map key ?r)"
    by (simp add: sorted_wrt_rev)
  then show ?thesis
    by (simp add: sorted_wrt_map)
qed

lemma filter_eq_singleton:
  "distinct xs \<Longrightarrow> k \<in> set xs \<Longrightarrow> filter (\<lambda>x. k = x) xs = [k]"
proof (induction xs)
  case Nil
  then show ?case by simp
next
  case (Cons a xs)
  show ?case
  proof (cases "k = a")
    case True
    then have "filter (\<lambda>x. k = x) xs = []"
      using Cons.prems by (auto simp: filter_empty_conv)
    then show ?thesis using True by simp
  next
    case False
    then show ?thesis using Cons by auto
  qed
qed

lemma sort_key_perm_unique:
  assumes "mset xs = mset ys" "distinct (map key xs)"
  shows "sort_key key xs = sort_key key ys"
proof (rule properties_for_sort_key)
  show "mset (sort_key key ys) = mset xs" using assms(1) by simp
  show "sorted (map key (sort_key key ys))" by simp
next
  fix k assume "k \<in> set (sort_key key ys)"
  then have k: "k \<in> set xs" using assms(1) by (metis mset_eq_setD set_sort)
  have dx: "distinct xs" "inj_on key (set xs)" using assms(2) by (auto simp: distinct_map)
  then have dy: "distinct ys" using assms(1) by (metis mset_eq_imp_distinct_iff)
  have sy: "set ys = set xs" using assms(1) by (metis mset_eq_setD)
  have "filter (\<lambda>x. key k = key x) xs = filter (\<lambda>x. k = x) xs"
    using dx(2) k by (intro filter_cong) (auto dest: inj_onD)
  moreover have "filter (\<lambda>x. key k = key x) ys = filter (\<lambda>x. k = x) ys"
    using dx(2) k sy by (intro filter_cong) (auto dest: inj_onD)
  moreover have "filter (\<lambda>x. k = x) xs = [k]" "filter (\<lambda>x. k = x) ys = [k]"
    using dx(1) dy k sy by (simp_all add: filter_eq_singleton)
  ultimately show "filter (\<lambda>x. key k = key x) (sort_key key ys) = filter (\<lambda>x. key k = key x) xs"
    by (simp add: filter_sort)
qed

lemma sorted_reverse_perm_unique:
  assumes "mset xs = mset ys" "distinct (map key xs)"
  shows "sorted_reverse key xs = sorted_reverse key ys"
proof -
  have "mset (rev xs) = mset (rev ys)" using assms(1) by simp
  moreover have "distinct (map key (rev xs))" using assms(2) by (metis distinct_rev rev_map)
  ultimately show ?thesis
    unfolding sorted_reverse_def using sort_key_perm_unique by blast
qed

lemma last_usage_items_mset:
  assumes "distinct ts" "distinct ts'" "set ts = set ts'"
  shows "mset (last_usage_items p ts) = mset (last_usage_items p ts')"
proof -
  have "mset ts = mset ts'"
    using assms by (simp add: set_eq_iff_mset_eq_distinct)
  then show ?thesis
    by (simp add: last_usage_items_def)
qed

text \<open>
  C8. For the processor that the analysis of a freshly loaded file yields, the planner's list
  is in descending order of the last-use index, and two entries with the same last-use index
  would be in ascending order of the tool number (there are none: a line index is recorded
  for one tool only, so the last-use indices of different tools differ). The list holds
  the tools with a non-empty usage list, each with the maximum of its list, and it is the
  same for every order in which the set of known tools is iterated: it is a function of
  the usage map.
\<close>

theorem planner_order:
  assumes "distinct ts" and "set ts = total_tools (analyze_tool_usage (init ls))"
  shows "let p = analyze_tool_usage (init ls); r = tools_by_last_use p ts
         in sorted_wrt (\<lambda>a b. snd b < snd a \<or> (snd a = snd b \<and> fst a < fst b)) r \<and>
            set r = {(t, list_max (tool_usage p t)) | t. tool_usage p t \<noteq> []} \<and>
            (\<forall>ts'. distinct ts' \<and> set ts' = total_tools p \<longrightarrow> tools_by_last_use p ts' = r)"
proof -
  define p where "p = analyze_tool_usage (init ls)"
  have inv: "usage_inv (length ls) p"
    unfolding p_def by (rule analyzed_inv)
  have keys: "distinct (map snd (last_usage_items p ts))"
    using last_usage_items_keys[OF inv assms(1)] .
  have "sorted_wrt (\<lambda>a b. snd b < snd a) (tools_by_last_use p ts)"
    unfolding tools_by_last_use_def using keys by (rule sorted_reverse_strict)
  then have 1: "sorted_wrt (\<lambda>a b. snd b < snd a \<or> (snd a = snd b \<and> fst a < fst b))
                  (tools_by_last_use p ts)"
    by (rule sorted_wrt_mono_rel[rotated]) simp
  have "set (tools_by_last_use p ts) = set (last_usage_items p ts)"
    unfolding tools_by_last_use_def by (metis sorted_reverse_mset mset_eq_setD)
  also have "\<dots> = {(t, list_max (tool_usage p t)) | t. tool_usage p t \<noteq> []}"
    using assms(2) inv unfolding last_usage_items_def usage_inv_def p_def[symmetric] by auto
  finally have 2: "set (tools_by_last_use p ts) =
      {(t, list_max (tool_usage p t)) | t. tool_usage p t \<noteq> []}" .
  have 3: "tools_by_last_use p ts' = tools_by_last_use p ts"
    if "distinct ts'" "set ts' = total_tools p" for ts'
  proof -
    have "mset (last_usage_items p ts) = mset (last_usage_items p ts')"
      using assms that by (intro last_usage_items_mset) (simp_all add: p_def)
    then show ?thesis
      unfolding tools_by_last_use_def using keys sorted_reverse_perm_unique by metis
  qed
  show ?thesis
    using 1 2 3 unfolding p_def[symmetric] Let_def by blast
qed

text \<open>
  A file in which tool 0 extrudes at line 1 and tool 1 at line 3: for both orders of
  iteration over the two known tools the planner's list is tool 1, then tool 0.
\<close>

theorem planner_order_witness:
  "distinct [0, 1 :: nat] \<and>
   set [0, 1] = total_tools (analyze_tool_usage (init [''T0'', ''G1 E1.0'', ''T1'', ''G1 E2.0''])) \<and>
   tools_by_last_use (analyze_tool_usage (init [''T0'', ''G1 E1.0'', ''T1'', ''G1 E2.0''])) [0, 1]
     = [(1, 3), (0, 1)] \<and>
   tools_by_last_use (analyze_tool_usage (init [''T0'', ''G1 E1.0'', ''T1'', ''G1 E2.0''])) [1, 0]
     = [(1, 3), (0, 1)]"
proof -
  let ?p = "analyze_tool_usage (init [''T0'', ''G1 E1.0'', ''T1'', ''G1 E2.0''])"
  have 1: "distinct [0, 1 :: nat]" by simp
  have 2: "set [0, 1] = total_tools ?p"
    by code_simp
  have 3: "tools_by_last_use ?p [0, 1] = [(1, 3), (0, 1)]"
    by code_simp
  have 4: "distinct [1, 0 :: nat]" "set [1, 0] = total_tools ?p"
    using 2 by auto
  have "tools_by_last_use ?p [1, 0] = tools_by_last_use ?p [0, 1]"
    using planner_order[OF 1 2] 4 unfolding Let_def by blast
  then show ?thesis
    using 1 2 3 by simp
qed

section \<open>Tools without a standby command\<close>

lemma find_last_standby_pos: "find_last_standby_command p t = Some k \<Longrightarrow> k \<noteq> 0"
  by (auto simp: find_last_standby_command_def standby_scan_Some)

lemma safe_point_eq: "find_safe_insertion_point p l t = find_last_standby_command p t"
  using find_last_standby_pos[of p t]
  by (auto simp: find_safe_insertion_point_def split: option.splits)

lemma shutdown_step_skip:
  "find_last_standby_command p t = None \<Longrightarrow> shutdown_step p st (t, l) = st"
  by (cases st) (simp add: shutdown_step_def safe_point_eq)

lemma foldl_filter_skip:
  "(\<And>s x. x \<in> set xs \<Longrightarrow> \<not> P x \<Longrightarrow> f s x = s) \<Longrightarrow> foldl f s (filter P xs) = foldl f s xs"
  by (induction xs arbitrary: s) auto

lemma sorted_reverse_filter:
  "sorted_reverse key (filter P xs) = filter P (sorted_reverse key xs)"
  unfolding sorted_reverse_def by (metis rev_filter filter_sort)

lemma tools_by_last_use_filter:
  "tools_by_last_use p (filter Q ts) = filter (\<lambda>it. Q (fst it)) (tools_by_last_use p ts)"
proof -
  have "last_usage_items p (filter Q ts) = filter (\<lambda>it. Q (fst it)) (last_usage_items p ts)"
    by (simp add: last_usage_items_def filter_map comp_def conj_commute)
  then show ?thesis
    by (simp add: tools_by_last_use_def sorted_reverse_filter)
qed

lemma shutdown_set:
  "snd (foldl (shutdown_step p) (out, sd) items) =
     sd \<union> {t \<in> fst ` set items. find_last_standby_command p t \<noteq> None}"
proof (induction items arbitrary: out sd)
  case Nil
  then show ?case by simp
next
  case (Cons it items)
  obtain t l where it: "it = (t, l)" by (cases it)
  show ?case
  proof (cases "find_last_standby_command p t")
    case None
    then show ?thesis
      using Cons.IH[of out sd] it by (auto simp: shutdown_step_skip)
  next
    case (Some k)
    then have "shutdown_step p (out, sd) it =
        (insert_block k (generate_shutdown_commands p t) out, insert t sd)"
      using it by (simp add: shutdown_step_def safe_point_eq)
    then show ?thesis
      using Cons.IH[of "insert_block k (generate_shutdown_commands p t) out" "insert t sd"] it Some
      by auto
  qed
qed

lemma insert_shutdown_fields:
  "snd (insert_shutdown_commands p ts) =
     p\<lparr>shutdown_inserted := shutdown_inserted p \<union>
          {t \<in> fst ` set (tools_by_last_use p ts). find_last_standby_command p t \<noteq> None}\<rparr>"
  using shutdown_set[of p "lines p" "shutdown_inserted p" "tools_by_last_use p ts"]
  by (simp add: insert_shutdown_commands_def split_beta)

text \<open>
  A tool that has a non-empty usage list after the analysis, when no line of the file
  passes the test of source line 178 for it (its standby text occurs in no line), is not in
  the shutdown set after the insertion, the output lines are the ones the insertion
  yields when the tool is left out of the iteration (nothing is inserted for it), and the
  report gives the tool the status "Active until end".
\<close>

lemma no_standby_no_shutdown:
  assumes "tool_usage (analyze_tool_usage (init ls)) t \<noteq> []"
    and "\<forall>k<length ls. \<not> standby_marker t (ls ! k)"
  shows "let (out, p') = run ts ls
         in t \<notin> shutdown_inserted p' \<and>
            out = fst (run (filter (\<lambda>u. u \<noteq> t) ts) ls) \<and>
            (t, tool_changes p' t, Active_until_end) \<in> set (report_tools p')"
proof -
  define p where "p = analyze_tool_usage (init ls)"
  have frame: "lines p = ls" "shutdown_inserted p = {}"
    unfolding p_def using analyzed_frame by simp_all
  have inv: "usage_inv (length ls) p"
    unfolding p_def by (rule analyzed_inv)
  have none: "find_last_standby_command p t = None"
    using assms(2) frame by (simp add: find_last_standby_command_def standby_scan_None)
  define p' where "p' = snd (insert_shutdown_commands p ts)"
  have p': "p' = p\<lparr>shutdown_inserted := shutdown_inserted p \<union>
          {t \<in> fst ` set (tools_by_last_use p ts). find_last_standby_command p t \<noteq> None}\<rparr>"
    unfolding p'_def by (rule insert_shutdown_fields)
  have 1: "t \<notin> shutdown_inserted p'"
    using none frame by (simp add: p')
  have "foldl (shutdown_step p) (lines p, shutdown_inserted p)
          (filter (\<lambda>it. fst it \<noteq> t) (tools_by_last_use p ts)) =
        foldl (shutdown_step p) (lines p, shutdown_inserted p) (tools_by_last_use p ts)"
    by (rule foldl_filter_skip) (auto simp: shutdown_step_skip[OF none])
  then have 2: "fst (insert_shutdown_commands p ts) =
      fst (insert_shutdown_commands p (filter (\<lambda>u. u \<noteq> t) ts))"
    by (simp add: insert_shutdown_commands_def tools_by_last_use_filter split_beta)
  have "t \<in> total_tools p" "finite (total_tools p)"
    using inv assms(1) unfolding usage_inv_def p_def[symmetric] by auto
  then have "t \<in> set (filter (\<lambda>tool. tool_usage p' tool \<noteq> []) (sorted_list_of_set (total_tools p')))"
    using assms(1) by (simp add: p' p_def[symmetric])
  then have 3: "(t, tool_changes p' t, Active_until_end) \<in> set (report_tools p')"
    using 1 unfolding report_tools_def by (auto simp: image_iff)
  show ?thesis
    using 1 2 3 unfolding run_def p_def[symmetric] p'_def by (simp add: split_beta)
qed

text \<open>
  Tool 0 extrudes at line 1; the only standby command of the file is for tool 1. The output
  is the input and the report lists tool 0 as active until the end.
\<close>

lemma no_standby_no_shutdown_example:
  "tool_usage (analyze_tool_usage (init [''T0'', ''G1 E1.0'', ''M104 S100 T1''])) 0 \<noteq> [] \<and>
   \<not> standby_marker 0 ''T0'' \<and> \<not> standby_marker 0 ''G1 E1.0'' \<and>
   \<not> standby_marker 0 ''M104 S100 T1'' \<and>
   0 \<notin> shutdown_inserted (snd (run [0] [''T0'', ''G1 E1.0'', ''M104 S100 T1''])) \<and>
   fst (run [0] [''T0'', ''G1 E1.0'', ''M104 S100 T1'']) = [''T0'', ''G1 E1.0'', ''M104 S100 T1''] \<and>
   (0, 0, Active_until_end) \<in> set (report_tools (snd (run [0] [''T0'', ''G1 E1.0'', ''M104 S100 T1''])))"
proof -
  let ?ls = "[''T0'', ''G1 E1.0'', ''M104 S100 T1'']"
  have 1: "tool_usage (analyze_tool_usage (init ?ls)) 0 \<noteq> []"
    by code_simp
  have 2: "\<forall>k<length ?ls. \<not> standby_marker 0 (?ls ! k)"
    by code_simp
  have 3: "fst (run [] ?ls) = ?ls"
    by (simp add: run_def insert_shutdown_commands_def tools_by_last_use_def
        last_usage_items_def sorted_reverse_def analyzed_frame)
  have 4: "tool_changes (snd (run [0] ?ls)) 0 = 0"
    by code_simp
  have 5: "\<not> standby_marker 0 ''T0'' \<and> \<not> standby_marker 0 ''G1 E1.0'' \<and>
           \<not> standby_marker 0 ''M104 S100 T1''"
    by code_simp
  show ?thesis
    using 1 3 4 5 no_standby_no_shutdown[OF 1 2, of "[0]"]
    by (simp add: split_beta)
qed

text \<open>
  C4. Tool 1 extrudes at line 1 and the file has no standby command for it; the only
  standby command, at index 4, is for tool 10. Its text contains \<open>M104 S100 T1\<close>, so the
  search for tool 1 returns 5 instead of \<open>None\<close>: the run inserts the block of tool 1 at
  index 5, puts tool 1 in the shutdown set, and the report gives tool 1 the status
  "Auto-Shutdown".
\<close>

theorem prefix_tool_shut_down:
  "find_last_standby_command
     (analyze_tool_usage (init [''T1'', ''G1 E1.0'', ''T10'', ''G1 E2.0'', ''M104 S100 T10''])) 1
     = Some 5 \<and>
   shutdown_inserted (snd (run [1, 10] [''T1'', ''G1 E1.0'', ''T10'', ''G1 E2.0'',
                                        ''M104 S100 T10''])) = {1, 10} \<and>
   report_tools (snd (run [1, 10] [''T1'', ''G1 E1.0'', ''T10'', ''G1 E2.0'', ''M104 S100 T10'']))
     = [(1, 0, Auto_Shutdown), (10, 0, Auto_Shutdown)] \<and>
   take 7 (drop 5 (fst (run [1, 10] [''T1'', ''G1 E1.0'', ''T10'', ''G1 E2.0'',
                                     ''M104 S100 T10'']))) =
     generate_shutdown_commands (init []) 1 \<and>
   length (fst (run [1, 10] [''T1'', ''G1 E1.0'', ''T10'', ''G1 E2.0'', ''M104 S100 T10''])) = 19"
  by code_simp

section \<open>The sequence mutator\<close>

text \<open>
  C3. Tool 0 prints first and last, tool 1 in between: the last use of tool 0 (line 7) is
  after the last use of tool 1 (line 4), but its last standby command (line 2) is before
  the one of tool 1 (line 5). The loop handles tool 0 first and inserts its block at index 3;
  it then inserts the block of tool 1 at index 6, an index of the original file, which in
  the working copy lies inside the block of tool 0. In the output the block of tool 1 starts
  at index 6, between the banner lines of tool 0, and the line after the standby command of
  tool 1 (index 19) is the original next line \<open>T0\<close>.
\<close>

theorem block_inside_other_block:
  "fst (run [0, 1] [''T0'', ''G1 X1 E1.0'', ''M104 S100 T0'', ''T1'', ''G1 X2 E2.0'',
                    ''M104 S100 T1'', ''T0'', ''G1 X3 E3.0'']) =
     [''T0'', ''G1 X1 E1.0'', ''M104 S100 T0'',
      ''; ========================================'' @ [CHR 0x0A],
      ''; AUTO-SHUTDOWN: Tool T0'' @ [CHR 0x0A],
      ''; Overrides OrcaSlicer standby (100'' @ [CHR 0xB0] @ ''C -> 0'' @ [CHR 0xB0] @ ''C)'' @ [CHR 0x0A],
      ''; ========================================'' @ [CHR 0x0A],
      ''; AUTO-SHUTDOWN: Tool T1'' @ [CHR 0x0A],
      ''; Overrides OrcaSlicer standby (100'' @ [CHR 0xB0] @ ''C -> 0'' @ [CHR 0xB0] @ ''C)'' @ [CHR 0x0A],
      ''; ========================================'' @ [CHR 0x0A],
      ''M104 S0 T1          ; Hotend T1 shutdown'' @ [CHR 0x0A],
      ''; Energy savings: Tool T1 fully deactivated'' @ [CHR 0x0A],
      [CHR 0x0A],
      ''; ========================================'' @ [CHR 0x0A],
      ''M104 S0 T0          ; Hotend T0 shutdown'' @ [CHR 0x0A],
      ''; Energy savings: Tool T0 fully deactivated'' @ [CHR 0x0A],
      [CHR 0x0A],
      ''T1'', ''G1 X2 E2.0'', ''M104 S100 T1'', ''T0'', ''G1 X3 E3.0'']"
  by code_simp

section \<open>A second pass of the analysis\<close>




section \<open>A second run of the pipeline\<close>

text \<open>
  C7. The file has one tool with one extrusion and its standby command. The first run
  inserts the shutdown block after the standby command; a second run on the output of the
  first inserts the block again: the heater shutdown line of tool 0 occurs once after the
  first run and twice after the second, and tool 0 is in the shutdown set of the second run.
\<close>

theorem second_run_duplicates:
  "count_list (fst (run [0] [''T0'', ''G1 E1.0'', ''M104 S100 T0'']))
     (''M104 S0 T0          ; Hotend T0 shutdown'' @ [CHR 0x0A]) = 1 \<and>
   count_list (fst (run [0] (fst (run [0] [''T0'', ''G1 E1.0'', ''M104 S100 T0'']))))
     (''M104 S0 T0          ; Hotend T0 shutdown'' @ [CHR 0x0A]) = 2 \<and>
   shutdown_inserted (snd (run [0] (fst (run [0] [''T0'', ''G1 E1.0'', ''M104 S100 T0''])))) = {0}"
  by code_simp

subsection \<open>The analysis passes over the inserted lines\<close>

lemma ignored_line_skip: "ignored_line l \<Longrightarrow> analyze_line i l st = st"
  by (cases st) (simp add: ignored_line_def analyze_line_def Let_def)

lemma similar_refl: "similar st st"
  by (simp add: similar_def)

lemma similar_sym: "similar st st' \<Longrightarrow> similar st' st"
  by (simp add: similar_def)

lemma similar_trans: "similar a b \<Longrightarrow> similar b c \<Longrightarrow> similar a c"
  by (simp add: similar_def)

lemma similar_track:
  assumes "similar (v, p) (v', p')"
  shows "similar (v, track_extrusion i e p) (v', track_extrusion j e p')"
  using assms by (auto simp: similar_def track_extrusion_def is_extrusion_def Let_def)

lemma similar_select:
  assumes "similar (v, p) (v', p')"
  shows "similar (select_tool n (v, p)) (select_tool n (v', p'))"
  using assms by (auto simp: similar_def select_tool_def Let_def)

lemma similar_step:
  assumes "similar st st'"
  shows "similar (analyze_line i l st) (analyze_line j l st')"
proof -
  obtain v p v' p' where st: "st = (v, p)" "st' = (v', p')"
    by (cases st, cases st') auto
  have vv: "v' = v" using assms st by (simp add: similar_def)
  define w where "w = (if str_in '';LAYER:'' (strip l) \<or> str_in '';layer'' (lower (strip l))
            then v\<lparr>in_start_gcode := False\<rparr> else v)"
  have eq: "analyze_line k l (v, q) =
      (if startswith (strip l) ''M82'' then (w, q\<lparr>e_mode := ABS\<rparr>)
       else if startswith (strip l) ''M83'' then (w, q\<lparr>e_mode := REL\<rparr>)
       else (case re_g92_e_match (strip l) of
               Some g \<Rightarrow> (w, q\<lparr>e_pos := py_float g\<rparr>)
             | None \<Rightarrow>
                (case re_t_match (strip l) of
                   Some d \<Rightarrow> select_tool (py_int d) (w, q)
                 | None \<Rightarrow>
                    if is_move (strip l)
                    then (case re_e_search (strip l) of
                            None \<Rightarrow> (w, q)
                          | Some g \<Rightarrow> (w, track_extrusion k (py_float g) q))
                    else (w, q))))" for k q
    unfolding analyze_line_def Let_def prod.case w_def by (rule refl)
  have base: "similar (w, p) (w, p')"
    using assms st by (simp add: similar_def)
  have m: "similar (w, p\<lparr>e_mode := x\<rparr>) (w, p'\<lparr>e_mode := x\<rparr>)" for x
    using base by (simp add: similar_def)
  have g: "similar (w, p\<lparr>e_pos := x\<rparr>) (w, p'\<lparr>e_pos := x\<rparr>)" for x
    using base by (simp add: similar_def)
  show ?thesis
    unfolding st vv eq
    using base m g similar_select[OF base] similar_track[OF base]
    by (simp split: option.splits)
qed

lemma similar_filter:
  "similar st st' \<Longrightarrow>
   similar (analyze_from i ls st) (analyze_from j (filter (\<lambda>l. \<not> ignored_line l) ls) st')"
proof (induction ls arbitrary: i j st st')
  case Nil
  then show ?case by simp
next
  case (Cons l ls)
  show ?case
  proof (cases "ignored_line l")
    case True
    then show ?thesis
      using Cons.IH[OF Cons.prems, of "Suc i" j] by (simp add: ignored_line_skip)
  next
    case False
    have "similar (analyze_line i l st) (analyze_line j l st')"
      using Cons.prems by (rule similar_step)
    from Cons.IH[OF this, of "Suc i" "Suc j"] show ?thesis
      using False by simp
  qed
qed

lemma same_filter_similar:
  assumes "filter (\<lambda>l. \<not> ignored_line l) ls = filter (\<lambda>l. \<not> ignored_line l) ls'"
  shows "similar (analyze_from 0 ls (init_locals, init ls)) (analyze_from 0 ls' (init_locals, init ls'))"
proof -
  let ?f = "filter (\<lambda>l. \<not> ignored_line l) ls"
  have 0: "similar (init_locals, init ls) (init_locals, init ls')"
    by (simp add: similar_def init_def)
  have "similar (analyze_from 0 ls (init_locals, init ls)) (analyze_from 0 ?f (init_locals, init ls))"
    using similar_filter[OF similar_refl] .
  moreover have "similar (analyze_from 0 ls' (init_locals, init ls')) (analyze_from 0 ?f (init_locals, init ls))"
    using similar_filter[OF similar_sym[OF 0], of 0 ls' 0] assms by simp
  ultimately show ?thesis
    using similar_sym similar_trans by blast
qed

lemma same_filter_usage:
  assumes "filter (\<lambda>l. \<not> ignored_line l) ls = filter (\<lambda>l. \<not> ignored_line l) ls'"
  shows "(tool_usage (analyze_tool_usage (init ls)) t = []) =
         (tool_usage (analyze_tool_usage (init ls')) t = [])"
  using same_filter_similar[OF assms]
  by (simp add: similar_def analyze_tool_usage_def init_def)

subsection \<open>Every line of a shutdown block is passed over\<close>

lemma strip_core:
  assumes "a \<noteq> []" "\<not> is_space (hd a)" "\<not> is_space (last a)" "\<forall>c\<in>set w. is_space c"
  shows "strip (a @ w) = a"
proof -
  have 1: "dropWhile is_space (a @ w) = a @ w"
    using assms(1,2) by (cases a) auto
  have "dropWhile is_space (rev w @ rev a) = dropWhile is_space (rev a)"
    using assms(4) by (intro dropWhile_append2) auto
  moreover have "dropWhile is_space (rev a) = rev a"
    using assms(1,3) by (cases "rev a") (auto simp: hd_rev)
  ultimately show ?thesis
    using 1 by (simp add: strip_def)
qed

lemma no_pair_not_in:
  "successively (\<lambda>x y. \<not> (x = a \<and> y = b)) s \<Longrightarrow> \<not> str_in (a # b # pat) s"
proof (induction s)
  case Nil
  then show ?case by simp
next
  case (Cons c cs)
  have rest: "\<not> str_in (a # b # pat) cs"
    using Cons by (auto simp: successively_Cons)
  have "take (length (a # b # pat)) (c # cs) \<noteq> a # b # pat"
  proof
    assume "take (length (a # b # pat)) (c # cs) = a # b # pat"
    then obtain r where "c # cs = (a # b # pat) @ r"
      using take_eq_iff_append by blast
    then have "c = a" "cs = b # pat @ r" by simp_all
    then show False using Cons.prems by simp
  qed
  then show ?case using rest by simp
qed

lemma lower_char_semicolon: "lower_char x = CHR '';'' \<Longrightarrow> x = CHR '';''"
proof (rule ccontr)
  assume l: "lower_char x = CHR '';''" and n: "x \<noteq> CHR '';''"
  then have up: "(65 \<le> code x \<and> code x \<le> 90) \<or> (192 \<le> code x \<and> code x \<le> 214) \<or>
                 (216 \<le> code x \<and> code x \<le> 222)"
    and eq: "char_of (code x + 32) = CHR '';''"
    by (auto simp: lower_char_def Let_def split: if_splits)
  have "(of_char (char_of (code x + 32) :: char) :: nat) = (code x + 32) mod 256"
    by (rule of_char_of)
  then have "(code x + 32) mod 256 = 59"
    using eq by simp
  then show False using up by auto
qed

lemma semi_ok_no_layer:
  assumes "successively semi_ok s"
  shows "\<not> str_in '';LAYER:'' s \<and> \<not> str_in '';layer'' (lower s)"
proof
  have "successively (\<lambda>x y. \<not> (x = CHR '';'' \<and> y = CHR ''L'')) s"
    using assms by (rule successively_mono) auto
  then show "\<not> str_in '';LAYER:'' s"
    by (rule no_pair_not_in)
next
  have "lower_char y \<noteq> CHR ''l''" if "y = CHR '' ''" for y
    using that by (simp add: lower_char_def code_def)
  then have "successively (\<lambda>x y. \<not> (lower_char x = CHR '';'' \<and> lower_char y = CHR ''l'')) s"
    using assms by (intro successively_mono[OF assms]) (auto dest: lower_char_semicolon)
  then have "successively (\<lambda>x y. \<not> (x = CHR '';'' \<and> y = CHR ''l'')) (lower s)"
    by (simp add: lower_def successively_map)
  then show "\<not> str_in '';layer'' (lower s)"
    by (rule no_pair_not_in)
qed

lemma ignored_by_shape:
  assumes "strip raw = c1 # c2 # c3 # c4 # rest"
    and "c1 = CHR '';'' \<or> (c1 = CHR ''M'' \<and> c2 = CHR ''1'')"
    and "successively semi_ok (strip raw)"
  shows "ignored_line raw"
proof -
  let ?s = "c1 # c2 # c3 # c4 # rest"
  have sp: "\<not> is_space c1"
    using assms(2) by (auto simp: is_space_def code_def)
  have 1: "\<not> startswith ?s ''M82''" "\<not> startswith ?s ''M83''"
    using assms(2) by (auto simp: startswith_def)
  have 2: "re_g92_e_match ?s = None"
    using assms(2) sp by (auto simp: re_g92_e_match_def)
  have 3: "re_t_match ?s = None"
    using assms(2) sp by (auto simp: re_t_match_def)
  have 4: "\<not> is_move ?s"
    using assms(2) by (auto simp: is_move_def)
  show ?thesis
    using 1 2 3 4 semi_ok_no_layer[OF assms(3)]
    unfolding ignored_line_def Let_def assms(1) by blast
qed

lemma digits_semi_ok: "\<forall>c\<in>set n. is_digit c \<Longrightarrow> successively semi_ok n"
proof (induction n)
  case Nil
  then show ?case by simp
next
  case (Cons c n)
  then have "c \<noteq> CHR '';''" by (auto simp: is_digit_def code_def)
  then show ?case using Cons by (auto simp: successively_Cons)
qed

lemma digit_not_semicolon: "is_digit c \<Longrightarrow> c \<noteq> CHR '';''"
  by (auto simp: is_digit_def code_def)

lemma numeral_facts:
  "str_of_nat t \<noteq> []" "successively semi_ok (str_of_nat t)"
  "last (str_of_nat t) \<noteq> CHR '';''" "\<not> is_space (last (str_of_nat t))"
  "hd (str_of_nat t) \<noteq> CHR '';''"
proof -
  have d: "str_of_nat t \<noteq> []" "\<forall>c\<in>set (str_of_nat t). is_digit c"
    using str_of_nat_digits by auto
  show "str_of_nat t \<noteq> []" by fact
  show "successively semi_ok (str_of_nat t)" using d(2) by (rule digits_semi_ok)
  have "is_digit (last (str_of_nat t))" "is_digit (hd (str_of_nat t))" using d by auto
  then show "last (str_of_nat t) \<noteq> CHR '';''" "\<not> is_space (last (str_of_nat t))"
    "hd (str_of_nat t) \<noteq> CHR '';''"
    by (auto dest: digit_not_semicolon digit_not_space)
qed

lemma ignored_content:
  assumes "4 \<le> length a"
    and "hd a = CHR '';'' \<or> take 2 a = ''M1''"
    and "\<not> is_space (last a)" and "successively semi_ok a"
  shows "ignored_line (a @ [CHR 0x0A])"
proof -
  obtain c1 c2 c3 c4 rest where a: "a = c1 # c2 # c3 # c4 # rest"
    using assms(1) by (auto simp: eval_nat_numeral Suc_le_length_iff)
  have c: "c1 = CHR '';'' \<or> (c1 = CHR ''M'' \<and> c2 = CHR ''1'')"
    using assms(2) a by auto
  then have "\<not> is_space (hd a)"
    using a by (auto simp: is_space_def code_def)
  moreover have "\<forall>c\<in>set [CHR 0x0A]. is_space c"
    by (simp add: is_space_def code_def)
  ultimately have "strip (a @ [CHR 0x0A]) = a"
    using a assms(3) by (intro strip_core) auto
  then show ?thesis
    using a c assms(4) by (intro ignored_by_shape[of _ c1 c2 c3 c4 rest]) auto
qed

lemmas peel = successively_Cons successively_append_iff

lemma banner_ignored:
  "ignored_line (''; ========================================'' @ [CHR 0x0A])"
  by (rule ignored_content) (simp_all add: is_space_def code_def peel)

lemma overrides_ignored:
  "ignored_line ((''; Overrides OrcaSlicer standby (100'' @ [CHR 0xB0] @ ''C -> 0'' @ [CHR 0xB0] @ ''C)'') @ [CHR 0x0A])"
  by (rule ignored_content) (simp_all add: is_space_def code_def peel)

lemma auto_shutdown_ignored:
  "ignored_line ((''; AUTO-SHUTDOWN: Tool T'' @ str_of_nat t) @ [CHR 0x0A])"
  using numeral_facts[of t]
  by (intro ignored_content) (simp_all add: is_space_def code_def peel)

lemma heater_ignored:
  "ignored_line ((''M104 S0 T'' @ str_of_nat t @ ''          ; Hotend T'' @ str_of_nat t @ '' shutdown'') @ [CHR 0x0A])"
  using numeral_facts[of t]
  by (intro ignored_content) (simp_all add: is_space_def code_def peel)

lemma fan_ignored:
  "ignored_line ((''M106 P'' @ str_of_nat t @ '' S0          ; Part cooling fan T'' @ str_of_nat t @ '' off'') @ [CHR 0x0A])"
  using numeral_facts[of t]
  by (intro ignored_content) (simp_all add: is_space_def code_def peel)

lemma savings_ignored:
  "ignored_line ((''; Energy savings: Tool T'' @ str_of_nat t @ '' fully deactivated'') @ [CHR 0x0A])"
  using numeral_facts[of t]
  by (intro ignored_content) (simp_all add: is_space_def code_def peel)

lemma newline_ignored: "ignored_line [CHR 0x0A]"
  by (simp add: ignored_line_def strip_def lower_def startswith_def re_g92_e_match_def
      re_t_match_def is_move_def is_space_def code_def)

lemma block_lines_ignored:
  assumes "l \<in> set (generate_shutdown_commands p t)"
  shows "ignored_line l"
proof -
  have "l \<in> {''; ========================================'' @ [CHR 0x0A],
            (''; AUTO-SHUTDOWN: Tool T'' @ str_of_nat t) @ [CHR 0x0A],
            (''; Overrides OrcaSlicer standby (100'' @ [CHR 0xB0] @ ''C -> 0'' @ [CHR 0xB0] @ ''C)'') @ [CHR 0x0A],
            (''M104 S0 T'' @ str_of_nat t @ ''          ; Hotend T'' @ str_of_nat t @ '' shutdown'') @ [CHR 0x0A],
            (''M106 P'' @ str_of_nat t @ '' S0          ; Part cooling fan T'' @ str_of_nat t @ '' off'') @ [CHR 0x0A],
            (''; Energy savings: Tool T'' @ str_of_nat t @ '' fully deactivated'') @ [CHR 0x0A],
            [CHR 0x0A]}"
    using assms by (auto simp: generate_shutdown_commands_def Let_def split: if_splits)
  then show ?thesis
    using banner_ignored overrides_ignored auto_shutdown_ignored[of t] heater_ignored[of t]
      fan_ignored[of t] savings_ignored[of t] newline_ignored
    by blast
qed

subsection \<open>The output of a run\<close>

lemma list_insert_filter: "\<not> Q x \<Longrightarrow> filter Q (list_insert i x xs) = filter Q xs"
  by (simp add: list_insert_def) (metis append_take_drop_id filter_append)

lemma list_insert_mset: "mset (list_insert i x xs) = add_mset x (mset xs)"
  by (simp add: list_insert_def) (metis append_take_drop_id mset_append union_commute add_mset_add_single)

lemma insert_block_filter:
  "\<forall>c\<in>set cmds. \<not> Q c \<Longrightarrow> filter Q (insert_block k cmds out) = filter Q out"
proof -
  assume a: "\<forall>c\<in>set cmds. \<not> Q c"
  have "filter Q (foldl (\<lambda>acc cmd. list_insert k cmd acc) out cs) = filter Q out"
    if "\<forall>c\<in>set cs. \<not> Q c" for cs
    using that by (induction cs arbitrary: out) (simp_all add: list_insert_filter)
  then show ?thesis
    using a by (simp add: insert_block_def)
qed

lemma insert_block_mset: "mset (insert_block k cmds out) = mset cmds + mset out"
proof -
  have "mset (foldl (\<lambda>acc cmd. list_insert k cmd acc) out cs) = mset cs + mset out" for cs
    by (induction cs arbitrary: out) (simp_all add: list_insert_mset)
  from this[of "rev cmds"] show ?thesis
    by (simp add: insert_block_def)
qed

lemma shutdown_step_cases:
  "shutdown_step p (out, sd) (t, l) =
     (case find_last_standby_command p t of
        None \<Rightarrow> (out, sd)
      | Some k \<Rightarrow> (insert_block k (generate_shutdown_commands p t) out, insert t sd))"
  by (simp add: shutdown_step_def safe_point_eq)

lemma shutdown_fold_filter:
  "filter (\<lambda>l. \<not> ignored_line l) (fst (foldl (shutdown_step p) (out, sd) items)) =
   filter (\<lambda>l. \<not> ignored_line l) out"
proof (induction items arbitrary: out sd)
  case Nil
  then show ?case by simp
next
  case (Cons it items)
  obtain t l where it: "it = (t, l)" by (cases it)
  show ?case
  proof (cases "find_last_standby_command p t")
    case None
    then show ?thesis using Cons.IH it by (simp add: shutdown_step_cases)
  next
    case (Some k)
    have "filter (\<lambda>l. \<not> ignored_line l) (insert_block k (generate_shutdown_commands p t) out) =
          filter (\<lambda>l. \<not> ignored_line l) out"
      by (rule insert_block_filter) (simp add: block_lines_ignored)
    then show ?thesis using Cons.IH it Some by (simp add: shutdown_step_cases)
  qed
qed

lemma shutdown_fold_mset:
  "mset out \<subseteq># mset (fst (foldl (shutdown_step p) (out, sd) items)) \<and>
   (\<forall>t. t \<in> fst ` set items \<and> find_last_standby_command p t \<noteq> None \<longrightarrow>
      mset (generate_shutdown_commands p t) + mset out
        \<subseteq># mset (fst (foldl (shutdown_step p) (out, sd) items)))"
proof (induction items arbitrary: out sd)
  case Nil
  then show ?case by simp
next
  case (Cons it items)
  obtain u l where it: "it = (u, l)" by (cases it)
  define st' where "st' = shutdown_step p (out, sd) it"
  obtain out' sd' where st: "st' = (out', sd')" by (cases st')
  have grow: "mset out \<subseteq># mset out'"
    and own: "find_last_standby_command p u \<noteq> None \<longrightarrow>
      mset (generate_shutdown_commands p u) + mset out \<subseteq># mset out'"
    using st unfolding st'_def it
    by (auto simp: shutdown_step_cases insert_block_mset split: option.splits)
  have IH1: "mset out' \<subseteq># mset (fst (foldl (shutdown_step p) (out', sd') items))"
    and IH2: "\<And>t. t \<in> fst ` set items \<Longrightarrow> find_last_standby_command p t \<noteq> None \<Longrightarrow>
      mset (generate_shutdown_commands p t) + mset out'
        \<subseteq># mset (fst (foldl (shutdown_step p) (out', sd') items))"
    using Cons.IH[of out' sd'] by blast+
  have res: "foldl (shutdown_step p) (out, sd) (it # items) = foldl (shutdown_step p) (out', sd') items"
    using st st'_def by simp
  show ?case
    unfolding res
  proof (intro conjI allI impI)
    show "mset out \<subseteq># mset (fst (foldl (shutdown_step p) (out', sd') items))"
      using grow IH1 by (rule subset_mset.order_trans)
  next
    fix t
    assume t: "t \<in> fst ` set (it # items) \<and> find_last_standby_command p t \<noteq> None"
    show "mset (generate_shutdown_commands p t) + mset out
            \<subseteq># mset (fst (foldl (shutdown_step p) (out', sd') items))"
    proof (cases "t \<in> fst ` set items")
      case True
      have "mset (generate_shutdown_commands p t) + mset out
              \<subseteq># mset (generate_shutdown_commands p t) + mset out'"
        using grow by simp
      then show ?thesis
        using IH2[OF True] t subset_mset.order_trans by blast
    next
      case False
      then have "t = u" using t it by auto
      then show ?thesis
        using own t IH1 subset_mset.order_trans by blast
    qed
  qed
qed

lemma tools_by_last_use_tools:
  "fst ` set (tools_by_last_use p ts) = {t \<in> set ts. tool_usage p t \<noteq> []}"
proof -
  have "set (tools_by_last_use p ts) = set (last_usage_items p ts)"
    unfolding tools_by_last_use_def by (metis sorted_reverse_mset mset_eq_setD)
  then show ?thesis
    by (auto simp: last_usage_items_def image_iff)
qed

lemma shutdown_inserted_iff:
  "shutdown_inserted (snd (insert_shutdown_commands p ts)) =
     shutdown_inserted p \<union>
       {t \<in> set ts. tool_usage p t \<noteq> [] \<and> find_last_standby_command p t \<noteq> None}"
  unfolding insert_shutdown_fields tools_by_last_use_tools by auto

lemma run_output_filter:
  "filter (\<lambda>l. \<not> ignored_line l) (fst (run ts ls)) = filter (\<lambda>l. \<not> ignored_line l) ls"
  using shutdown_fold_filter[of "analyze_tool_usage (init ls)" ls "{}"]
  by (simp add: run_def insert_shutdown_commands_def split_beta analyzed_frame)

lemma config_block:
  "config p = config q \<Longrightarrow> generate_shutdown_commands p t = generate_shutdown_commands q t"
  by (simp add: generate_shutdown_commands_def)

lemma run_output_mset:
  assumes "t \<in> shutdown_inserted (snd (run ts ls))"
  shows "mset (generate_shutdown_commands (init ls') t) + mset ls \<subseteq># mset (fst (run ts ls))"
proof -
  let ?p = "analyze_tool_usage (init ls)"
  have fr: "lines ?p = ls" "shutdown_inserted ?p = {}" "config ?p = default_config"
    using analyzed_frame by simp_all
  have "t \<in> fst ` set (tools_by_last_use ?p ts) \<and> find_last_standby_command ?p t \<noteq> None"
    using assms fr by (simp add: run_def insert_shutdown_fields)
  then have "mset (generate_shutdown_commands ?p t) + mset ls
      \<subseteq># mset (fst (foldl (shutdown_step ?p) (ls, {}) (tools_by_last_use ?p ts)))"
    using shutdown_fold_mset[of ls ?p "{}" "tools_by_last_use ?p ts"] by blast
  moreover have "config (init ls') = default_config"
    by (simp add: init_def)
  then have "generate_shutdown_commands ?p t = generate_shutdown_commands (init ls') t"
    by (intro config_block) (simp only: fr)
  ultimately show ?thesis
    by (simp add: run_def insert_shutdown_commands_def split_beta fr)
qed

text \<open>
  C7, as amended. A second run shuts down again every tool that the first run shut down:
  the standby search looks for the standby marker only, the marker is still in the output
  of the first run, and the analysis passes over the lines the first run inserted, so the
  tool is again recorded as used. Whatever the iteration orders \<open>ts\<close> and \<open>ts'\<close> of the two
  runs, a tool in the shutdown set of the first run is in the shutdown set of the second,
  and the output of the second run holds the lines of the original file and, on top of
  them, the lines of the tool's block twice.
\<close>

theorem second_run_shuts_down_again:
  assumes "t \<in> shutdown_inserted (snd (run ts ls))"
    and "set ts' = total_tools (analyze_tool_usage (init (fst (run ts ls))))"
  shows "t \<in> shutdown_inserted (snd (run ts' (fst (run ts ls)))) \<and>
         mset (generate_shutdown_commands (init ls) t) +
         mset (generate_shutdown_commands (init ls) t) + mset ls
           \<subseteq># mset (fst (run ts' (fst (run ts ls))))"
proof -
  let ?p = "analyze_tool_usage (init ls)"
  let ?out = "fst (run ts ls)"
  let ?q = "analyze_tool_usage (init ?out)"
  have fr: "lines ?p = ls" "shutdown_inserted ?p = {}"
    and frq: "lines ?q = ?out" "shutdown_inserted ?q = {}"
    using analyzed_frame by simp_all
  have first: "tool_usage ?p t \<noteq> []" "find_last_standby_command ?p t \<noteq> None"
    using assms(1) fr by (simp_all add: run_def shutdown_inserted_iff)
  have used: "tool_usage ?q t \<noteq> []"
    using same_filter_usage[OF run_output_filter, of ts ls t] first(1) by simp
  have "usage_inv (length ?out) ?q"
    by (rule analyzed_inv)
  then have known: "t \<in> set ts'"
    using used assms(2) unfolding usage_inv_def by blast
  obtain k where k: "k < length ls" "standby_marker t (ls ! k)"
    using first(2) fr by (auto simp: find_last_standby_command_def standby_scan_None)
  have "mset ls \<subseteq># mset ?out"
    using subset_mset.order_trans[OF mset_subset_eq_add_right run_output_mset[OF assms(1)]] .
  then have "set ls \<subseteq> set ?out"
    using set_mset_mono by fastforce
  then have "ls ! k \<in> set ?out"
    using k(1) nth_mem by blast
  then obtain j where "j < length ?out" "?out ! j = ls ! k"
    by (auto simp: in_set_conv_nth)
  then have found: "find_last_standby_command ?q t \<noteq> None"
    using k(2) frq by (auto simp: find_last_standby_command_def standby_scan_None)
  have 1: "t \<in> shutdown_inserted (snd (run ts' ?out))"
    using used known found by (simp add: run_def shutdown_inserted_iff)
  have "mset (generate_shutdown_commands (init ls) t) + mset ?out \<subseteq># mset (fst (run ts' ?out))"
    using run_output_mset[OF 1] .
  moreover have "mset (generate_shutdown_commands (init ls) t) +
      (mset (generate_shutdown_commands (init ls) t) + mset ls)
        \<subseteq># mset (generate_shutdown_commands (init ls) t) + mset ?out"
    using run_output_mset[OF assms(1), of ls] by simp
  ultimately have "mset (generate_shutdown_commands (init ls) t) +
         (mset (generate_shutdown_commands (init ls) t) + mset ls)
           \<subseteq># mset (fst (run ts' ?out))"
    by (rule subset_mset.order_trans[rotated])
  then have 2: "mset (generate_shutdown_commands (init ls) t) +
         mset (generate_shutdown_commands (init ls) t) + mset ls
           \<subseteq># mset (fst (run ts' ?out))"
    by (simp only: add.assoc)
  show ?thesis using 1 2 by blast
qed

text \<open>On the file above tool 0 is shut down by the first run and again by the second.\<close>

theorem second_run_shuts_down_again_witness:
  "0 \<in> shutdown_inserted (snd (run [0] [''T0'', ''G1 E1.0'', ''M104 S100 T0''])) \<and>
   set [0] = total_tools (analyze_tool_usage
     (init (fst (run [0] [''T0'', ''G1 E1.0'', ''M104 S100 T0''])))) \<and>
   0 \<in> shutdown_inserted
     (snd (run [0] (fst (run [0] [''T0'', ''G1 E1.0'', ''M104 S100 T0''])))) \<and>
   mset (generate_shutdown_commands (init [''T0'', ''G1 E1.0'', ''M104 S100 T0'']) 0) +
   mset (generate_shutdown_commands (init [''T0'', ''G1 E1.0'', ''M104 S100 T0'']) 0) +
   mset [''T0'', ''G1 E1.0'', ''M104 S100 T0'']
     \<subseteq># mset (fst (run [0] (fst (run [0] [''T0'', ''G1 E1.0'', ''M104 S100 T0'']))))"
proof -
  let ?ls = "[''T0'', ''G1 E1.0'', ''M104 S100 T0'']"
  have 1: "0 \<in> shutdown_inserted (snd (run [0] ?ls))"
    by code_simp
  have 2: "set [0] = total_tools (analyze_tool_usage (init (fst (run [0] ?ls))))"
    by code_simp
  show ?thesis
    using 1 2 second_run_shuts_down_again[OF 1 2] by blast
qed

section \<open>The original lines in the output\<close>

text \<open>
  Whatever the insertion indices are, the insertion only adds lines: the lines of the file
  are a subsequence of the output, in their original order.
\<close>

lemma list_insert_subseq: "subseq xs (list_insert i x xs)"
proof -
  have "subseq (drop i xs) (x # drop i xs)"
    by (rule list_emb_Cons) simp
  then have "subseq (take i xs @ drop i xs) (take i xs @ x # drop i xs)"
    by (simp only: subseq_append')
  then show ?thesis by (simp add: list_insert_def)
qed

lemma insert_block_subseq: "subseq out (insert_block k cmds out)"
proof -
  have "subseq out (foldl (\<lambda>acc cmd. list_insert k cmd acc) out cs)" for cs
  proof (induction cs arbitrary: out)
    case Nil
    then show ?case by simp
  next
    case (Cons c cs)
    have "subseq out (list_insert k c out)" by (rule list_insert_subseq)
    then show ?case using Cons[of "list_insert k c out"] subseq_order.trans by auto
  qed
  then show ?thesis by (simp add: insert_block_def)
qed

lemma original_order_kept: "subseq (lines p) (fst (insert_shutdown_commands p ts))"
proof -
  have "subseq out (fst (foldl (shutdown_step p) (out, sd) items))" for out sd items
  proof (induction items arbitrary: out sd)
    case Nil
    then show ?case by simp
  next
    case (Cons it items)
    obtain t l where it: "it = (t, l)" by (cases it)
    show ?case
    proof (cases "find_last_standby_command p t")
      case None
      then show ?thesis using Cons it by (simp add: shutdown_step_cases)
    next
      case (Some k)
      have "subseq out (insert_block k (generate_shutdown_commands p t) out)"
        by (rule insert_block_subseq)
      then show ?thesis
        using Cons[of "insert_block k (generate_shutdown_commands p t) out" "insert t sd"] it Some
          subseq_order.trans by (auto simp: shutdown_step_cases)
    qed
  qed
  then show ?thesis
    by (simp add: insert_shutdown_commands_def split_beta)
qed

end
